theory Spec2Isabelle
  imports Complex_Main "HOL-Library.Word"
begin

section \<open>The MD server of the MESSAGE package (server\_md.cpp)\<close>

text \<open>
  A shallow embedding of \<^verbatim>\<open>ServerMD::loop\<close>, \<^verbatim>\<open>ServerMD::box_change\<close> and
  \<^verbatim>\<open>ServerMD::send_fev\<close>.

  Conventions of the model.
  \<^item> A \<^verbatim>\<open>double\<close> is a \<open>real\<close>: rounding, infinities and NaN are not modelled.
  \<^item> The process group runs the same program in lockstep on the same message. Data that the
    input script and the message replicate on every process (box, configuration, the
    counters of the loop, the arguments of \<^verbatim>\<open>cs->send\<close>) is held once; data that
    differs between processes (the local atoms, the local energy and virial) is held once
    per process, in the list \<open>world\<close>, in rank order.
  \<^item> \<^verbatim>\<open>error->all\<close> ends the run: a handler returns \<open>Fatal e sv\<close>, where \<open>sv\<close> is
    the state at the moment of the call.
  \<^item> What the collaborators do (Domain, Comm, Neighbor, Integrate, the atom map) is a
    parameter of the model, the record \<open>ext\<close>; their private state is the field \<open>engine\<close>.
  \<^item> The source is not accepted by a compiler as it is: the enumeration of line 36 lacks
    its semicolon, and the test of line 116 lacks an operator. The enumerations are read
    as they are declared; the operator is a parameter of the model.
  \<^item> The NATOMS field, and the sum of the local atom counts compared with it, are 32-bit
    \<^verbatim>\<open>int\<close>s, since the source tests \<^verbatim>\<open>3*natoms\<close> against \<^verbatim>\<open>INT_MAX\<close>; so are, in
    the STEP branch, \<^verbatim>\<open>nall\<close> and the cursor \<^verbatim>\<open>j\<close>, which wraps around where the
    \<^verbatim>\<open>int\<close> of the source overflows. The other integers (field IDs, types, counters, the
    loop index \<^verbatim>\<open>i\<close> of the SETUP branch) are unbounded: they are compared, counted up,
    or used as indices.
  \<^item> A read beyond the end of an array of the message is undefined in the source; in the
    model it is \<open>xs ! i\<close> beyond the length of the list, about which nothing is known.
  \<^item> The statistics printed after the loop are not modelled.
\<close>

subsection \<open>Protocol constants\<close>

definition SETUP :: int where "SETUP = 1"
definition STEP :: int where "STEP = 2"

definition DIM :: int where "DIM = 1"
definition PERIODICITY :: int where "PERIODICITY = 2"
definition ORIGIN :: int where "ORIGIN = 3"
definition BOX :: int where "BOX = 4"
definition NATOMS :: int where "NATOMS = 5"
definition NTYPES :: int where "NTYPES = 6"
definition TYPES :: int where "TYPES = 7"
definition COORDS :: int where "COORDS = 8"
definition CHARGE :: int where "CHARGE = 9"

definition INT_MAX :: int where "INT_MAX = 2147483647"

subsection \<open>Messages\<close>

text \<open>
  What \<^verbatim>\<open>cs->recv\<close> hands to the loop: the message ID, the array \<^verbatim>\<open>fieldID\<close> (its length
  is \<^verbatim>\<open>nfield\<close>), and what \<^verbatim>\<open>cs->unpack_int(ID)\<close> and \<^verbatim>\<open>cs->unpack(ID)\<close> return for each
  field ID of the enumeration. The loop unpacks a field only when its ID stands in
  \<^verbatim>\<open>fieldID\<close>. The arrays \<^verbatim>\<open>fieldtype\<close> and \<^verbatim>\<open>fieldlen\<close> are never read.
\<close>

record message =
  msgID :: int
  fieldID :: "int list"
  unpack_DIM :: int
  unpack_PERIODICITY :: "int list"
  unpack_ORIGIN :: "real list"
  unpack_BOX :: "real list"
  unpack_NATOMS :: "32 word"
  unpack_NTYPES :: int
  unpack_TYPES :: "int list"
  unpack_COORDS :: "real list"
  unpack_CHARGE :: "real list"

text \<open>
  A reply: the arguments of \<^verbatim>\<open>cs->send(msgID,nfield)\<close>, and what every process packs
  into it (one entry per process, in rank order): the tags and forces of its owned atoms,
  the reduced energy and the reduced virial it holds.
\<close>

record reply =
  reply_msgID :: int
  reply_nfield :: int
  reply_FORCES :: "(int list \<times> real list) list"
  reply_ENERGY :: "real list"
  reply_VIRIAL :: "real list list"

datatype error =
    Dimension_mismatch
  | Periodicity_mismatch
  | Max_atoms
  | Ntypes_mismatch
  | Setup_field_unknown
  | Setup_field_missing
  | No_atom_attribute_q
  | Not_triclinic
  | Atom_count_mismatch
  | Step_field_unknown
  | Step_field_missing
  | Unrecognized_message

subsection \<open>State\<close>

text \<open>The fields of \<^verbatim>\<open>Domain\<close> that the server reads and writes.\<close>

record domain =
  dimension :: int
  periodicity :: "int list"
  triclinic :: int
  boxlo :: "real list"
  boxhi :: "real list"
  xy :: real
  xz :: real
  yz :: real

text \<open>
  One process: its part of \<^verbatim>\<open>Atom\<close> (the per-atom arrays grow on demand, so they are
  functions of the index), the map from atom ID to local index, and the results of the
  last force evaluation. \<open>kspace\<close> is \<^verbatim>\<open>force->kspace\<close>: \<open>None\<close> for a null pointer,
  otherwise the virial of the long-range solver.
\<close>

record rank_state =
  nlocal :: nat
  nghost :: nat
  tag :: "nat \<Rightarrow> int"
  atom_type :: "nat \<Rightarrow> int"
  atom_x :: "nat \<Rightarrow> real list"
  atom_q :: "nat \<Rightarrow> real"
  atom_f :: "nat \<Rightarrow> real list"
  atom_map :: "int \<Rightarrow> int"
  eng_vdwl :: real
  eng_coul :: real
  virial :: "real list"
  kspace :: "real list option"

record 'e sim =
  domain :: domain
  natoms :: nat
  ntypes :: int
  q_flag :: int
  whichflag :: int
  world :: "rank_state list"
  engine :: 'e

text \<open>
  The state of the loop: the simulation, the two counters, and the replies sent so far
  (oldest first).
\<close>

record 'e server =
  sim :: "'e sim"
  forcecalls :: int
  neighcalls :: int
  sent :: "reply list"

datatype 'e result = Fatal error "'e server" | Ok "'e server"

text \<open>
  What the source leaves open. First the collaborators: \<open>ownatom X s r aid x\<close> is
  \<^verbatim>\<open>domain->ownatom(id,x,NULL,0)\<close> on the process of rank \<open>r\<close>, and
  \<open>closest_image X s xi xj\<close> is the image of \<open>xj\<close> that
  \<^verbatim>\<open>domain->closest_image(xi,xj,xjimage)\<close> stores in \<open>xjimage\<close>; the others change
  the simulation, or read it (\<open>decide\<close>), and cannot reach the counters of the loop or
  the replies. Then \<open>periodicity_op\<close>, the Boolean operator that the text of line 116
  lacks (see \<open>periodicity_differs\<close> below).
\<close>

record 'e ext =
  set_initial_box :: "'e sim \<Rightarrow> 'e sim"
  set_global_box :: "'e sim \<Rightarrow> 'e sim"
  set_proc_grid :: "'e sim \<Rightarrow> 'e sim"
  set_local_box :: "'e sim \<Rightarrow> 'e sim"
  ownatom :: "'e sim \<Rightarrow> nat \<Rightarrow> int \<Rightarrow> real list \<Rightarrow> bool"
  closest_image :: "'e sim \<Rightarrow> real list \<Rightarrow> real list \<Rightarrow> real list"
  map_init :: "'e sim \<Rightarrow> 'e sim"
  map_set :: "'e sim \<Rightarrow> 'e sim"
  init :: "'e sim \<Rightarrow> 'e sim"
  setup_minimal :: "int \<Rightarrow> 'e sim \<Rightarrow> 'e sim"
  decide :: "'e sim \<Rightarrow> int"
  forward_comm :: "'e sim \<Rightarrow> 'e sim"
  periodicity_op :: "bool \<Rightarrow> bool \<Rightarrow> bool"

subsection \<open>\<^verbatim>\<open>ServerMD::box_change\<close>\<close>

text \<open>The nine assignments of the source, in its order, on the arrays of \<^verbatim>\<open>Domain\<close>.\<close>

definition box_change :: "real list \<Rightarrow> real list \<Rightarrow> domain \<Rightarrow> domain" where
  "box_change origin box d =
     (let d = d\<lparr>boxlo := (boxlo d)[0 := origin ! 0]\<rparr>;
          d = d\<lparr>boxlo := (boxlo d)[1 := origin ! 1]\<rparr>;
          d = d\<lparr>boxlo := (boxlo d)[2 := origin ! 2]\<rparr>;
          d = d\<lparr>boxhi := (boxhi d)[0 := origin ! 0 + box ! 0]\<rparr>;
          d = d\<lparr>boxhi := (boxhi d)[1 := origin ! 1 + box ! 4]\<rparr>;
          d = d\<lparr>boxhi := (boxhi d)[2 := origin ! 2 + box ! 8]\<rparr>;
          d = d\<lparr>xy := box ! 3\<rparr>;
          d = d\<lparr>xz := box ! 6\<rparr>;
          d = d\<lparr>yz := box ! 7\<rparr>
      in d)"

subsection \<open>\<^verbatim>\<open>ServerMD::send_fev\<close>\<close>

text \<open>
  \<^verbatim>\<open>MPI_Allreduce(sendbuf,recvbuf,count,MPI_DOUBLE,MPI_SUM,world)\<close>. MPI is not part of
  the repository: the reduction is modelled as its standard says. The argument holds the
  send buffer of every process, in rank order; the result holds the receive buffer of
  every process: entry \<open>i\<close> of each is the sum over all processes of entry \<open>i\<close> of their
  send buffers.
\<close>

definition MPI_Allreduce_SUM :: "nat \<Rightarrow> real list list \<Rightarrow> real list list" where
  "MPI_Allreduce_SUM count sendbufs =
     map (\<lambda>_. map (\<lambda>i. sum_list (map (\<lambda>buf. buf ! i) sendbufs)) [0..<count]) sendbufs"

text \<open>
  The same for \<^verbatim>\<open>MPI_INT\<close> and one element: the sum of 32-bit integers, wrapping around.
\<close>

definition MPI_Allreduce_SUM_INT :: "32 word list \<Rightarrow> 32 word list" where
  "MPI_Allreduce_SUM_INT sendbufs = map (\<lambda>_. sum_list sendbufs) sendbufs"

text \<open>
  The local energy \<^verbatim>\<open>eng\<close> and the local virial \<^verbatim>\<open>v\<close> of one process: the pair virial,
  to which the virial of the long-range solver is added when \<^verbatim>\<open>force->kspace\<close> is not null.
\<close>

definition local_eng :: "rank_state \<Rightarrow> real" where
  "local_eng p = eng_vdwl p + eng_coul p"

definition local_virial :: "rank_state \<Rightarrow> real list" where
  "local_virial p =
     (let v = map (\<lambda>i. virial p ! i) [0..<6]
      in case kspace p of
           None \<Rightarrow> v
         | Some kv \<Rightarrow> map (\<lambda>i. v ! i + kv ! i) [0..<6])"

text \<open>
  What \<^verbatim>\<open>cs->pack_parallel(FORCES,4,atom->nlocal,atom->tag,3,forces)\<close> receives from one
  process: the tags of its \<open>nlocal\<close> owned atoms and their \<open>3*nlocal\<close> force components
  (\<^verbatim>\<open>forces\<close> is null when \<open>nlocal\<close> is 0, and nothing is read from it).
\<close>

definition local_forces :: "rank_state \<Rightarrow> int list \<times> real list" where
  "local_forces p =
     (map (tag p) [0..<nlocal p], concat (map (\<lambda>i. take 3 (atom_f p i)) [0..<nlocal p]))"

definition send_fev :: "int \<Rightarrow> 'e server \<Rightarrow> 'e server" where
  "send_fev mid sv =
     (let ps = world (sim sv);
          engall = MPI_Allreduce_SUM 1 (map (\<lambda>p. [local_eng p]) ps);
          vall = MPI_Allreduce_SUM 6 (map local_virial ps)
      in sv\<lparr>sent := sent sv @
            [\<lparr>reply_msgID = mid, reply_nfield = 3,
              reply_FORCES = map local_forces ps,
              reply_ENERGY = map (\<lambda>buf. buf ! 0) engall,
              reply_VIRIAL = vall\<rparr>]\<rparr>)"

text \<open>The closing reply \<^verbatim>\<open>cs->send(0,0)\<close>: no field is packed.\<close>

definition closing_reply :: reply where
  "closing_reply =
     \<lparr>reply_msgID = 0, reply_nfield = 0, reply_FORCES = [], reply_ENERGY = [],
      reply_VIRIAL = []\<rparr>"

subsection \<open>The SETUP message\<close>

text \<open>The local variables of the SETUP branch, with their initial values.\<close>

record setup_args =
  a_dim :: int
  a_periodicity :: "int list option"
  a_natoms :: "32 word"
  a_ntypes :: int
  a_origin :: "real list option"
  a_box :: "real list option"
  a_types :: "int list option"
  a_coords :: "real list option"
  a_charge :: "real list option"

definition setup_args0 :: setup_args where
  "setup_args0 =
     \<lparr>a_dim = 0, a_periodicity = None, a_natoms = - 1, a_ntypes = - 1, a_origin = None,
      a_box = None, a_types = None, a_coords = None, a_charge = None\<rparr>"

text \<open>
  The test of lines 115 to 117. The source text is
  \<^verbatim>\<open>periodicity[0] != domain->periodicity[0] || periodicity[1] != domain->periodicity[1]
  periodicity[2] != domain->periodicity[2]\<close>:
  no operator stands between the second and the third comparison, and the file is not
  accepted by a compiler as it is. The model takes the missing operator as the parameter
  \<open>op\<close>, a Boolean operator that joins the two comparisons (\<open>||\<close> and \<open>&&\<close> both
  give this grouping).
\<close>

definition periodicity_differs :: "(bool \<Rightarrow> bool \<Rightarrow> bool) \<Rightarrow> int list \<Rightarrow> int list \<Rightarrow> bool" where
  "periodicity_differs op p dp \<longleftrightarrow> p ! 0 \<noteq> dp ! 0 \<or> op (p ! 1 \<noteq> dp ! 1) (p ! 2 \<noteq> dp ! 2)"

text \<open>
  The test \<^verbatim>\<open>3*natoms > INT_MAX\<close>: the product is computed in \<^verbatim>\<open>int\<close>, so it wraps around
  before it is compared.
\<close>

definition exceeds_max_atoms :: "32 word \<Rightarrow> bool" where
  "exceeds_max_atoms n \<longleftrightarrow> sint (3 * n) > INT_MAX"

text \<open>One iteration of the loop over the fields of a SETUP message.\<close>

definition setup_field ::
  "'e ext \<Rightarrow> 'e sim \<Rightarrow> message \<Rightarrow> int \<Rightarrow> setup_args \<Rightarrow> error + setup_args" where
  "setup_field X s m fid a =
     (if fid = DIM then
        (let dim = unpack_DIM m
         in if dim \<noteq> dimension (domain s) then Inl Dimension_mismatch
            else Inr (a\<lparr>a_dim := dim\<rparr>))
      else if fid = PERIODICITY then
        (let p = unpack_PERIODICITY m
         in if periodicity_differs (periodicity_op X) p (periodicity (domain s))
            then Inl Periodicity_mismatch
            else Inr (a\<lparr>a_periodicity := Some p\<rparr>))
      else if fid = ORIGIN then Inr (a\<lparr>a_origin := Some (unpack_ORIGIN m)\<rparr>)
      else if fid = BOX then Inr (a\<lparr>a_box := Some (unpack_BOX m)\<rparr>)
      else if fid = NATOMS then
        (let n = unpack_NATOMS m
         in if exceeds_max_atoms n then Inl Max_atoms
            else Inr (a\<lparr>a_natoms := n\<rparr>))
      else if fid = NTYPES then
        (let n = unpack_NTYPES m
         in if n \<noteq> ntypes s then Inl Ntypes_mismatch
            else Inr (a\<lparr>a_ntypes := n\<rparr>))
      else if fid = TYPES then Inr (a\<lparr>a_types := Some (unpack_TYPES m)\<rparr>)
      else if fid = COORDS then Inr (a\<lparr>a_coords := Some (unpack_COORDS m)\<rparr>)
      else if fid = CHARGE then Inr (a\<lparr>a_charge := Some (unpack_CHARGE m)\<rparr>)
      else Inl Setup_field_unknown)"

fun setup_fields ::
  "'e ext \<Rightarrow> 'e sim \<Rightarrow> message \<Rightarrow> int list \<Rightarrow> setup_args \<Rightarrow> error + setup_args" where
  "setup_fields X s m [] a = Inr a"
| "setup_fields X s m (fid # fids) a =
     (case setup_field X s m fid a of
        Inl e \<Rightarrow> Inl e
      | Inr a' \<Rightarrow> setup_fields X s m fids a')"

text \<open>The test for a tilted box, the same in both branches.\<close>

definition tilted :: "real list \<Rightarrow> bool" where
  "tilted box \<longleftrightarrow> box ! 3 \<noteq> 0 \<or> box ! 6 \<noteq> 0 \<or> box ! 7 \<noteq> 0"

text \<open>
  Everything the SETUP branch checks before it changes any state (lines 108 to 152): the
  field loop, the required fields, the charge attribute, the triclinic box.
\<close>

definition setup_validate :: "'e ext \<Rightarrow> 'e sim \<Rightarrow> message \<Rightarrow> error + setup_args" where
  "setup_validate X s m =
     (case setup_fields X s m (fieldID m) setup_args0 of
        Inl e \<Rightarrow> Inl e
      | Inr a \<Rightarrow>
          if a_dim a = 0 \<or> a_periodicity a = None \<or> a_origin a = None \<or> a_box a = None \<or>
             sint (a_natoms a) < 0 \<or> a_ntypes a < 0 \<or> a_types a = None \<or> a_coords a = None
          then Inl Setup_field_missing
          else if a_charge a \<noteq> None \<and> q_flag s = 0 then Inl No_atom_attribute_q
          else if tilted (the (a_box a)) \<and> triclinic (domain s) = 0 then Inl Not_triclinic
          else Inr a)"

text \<open>
  Modelled from the spec: \<^verbatim>\<open>AtomVec::create_atom\<close> is not among the sources. The
  migration engine "inserts" the atom "locally": the new atom takes the next free local
  index \<open>nlocal\<close>, with the given type and position, and \<open>nlocal\<close> grows by one.
\<close>

definition create_atom :: "int \<Rightarrow> real list \<Rightarrow> rank_state \<Rightarrow> rank_state" where
  "create_atom itype coord p =
     p\<lparr>atom_type := (atom_type p)(nlocal p := itype),
       atom_x := (atom_x p)(nlocal p := coord),
       nlocal := nlocal p + 1\<rparr>"

text \<open>
  The loop of lines 168 to 175 on one process, over the indices \<open>is\<close> still to visit; the
  second component of the state is the local variable \<^verbatim>\<open>nlocal\<close> of the source.
  \<^verbatim>\<open>&coords[3*i]\<close> is the three entries of \<open>coords\<close> from \<open>3*i\<close> on.
\<close>

fun add_atoms ::
  "(int \<Rightarrow> real list \<Rightarrow> bool) \<Rightarrow> int list \<Rightarrow> real list \<Rightarrow> real list option \<Rightarrow> nat list \<Rightarrow>
   rank_state \<times> nat \<Rightarrow> rank_state \<times> nat" where
  "add_atoms own types coords charge [] (p, n) = (p, n)"
| "add_atoms own types coords charge (i # is) (p, n) =
     (if \<not> own (int i + 1) (take 3 (drop (3 * i) coords))
      then add_atoms own types coords charge is (p, n)
      else
        (let p = create_atom (types ! i) (take 3 (drop (3 * i) coords)) p;
             p = p\<lparr>tag := (tag p)(n := int i + 1)\<rparr>;
             p = (case charge of
                    None \<Rightarrow> p
                  | Some c \<Rightarrow> p\<lparr>atom_q := (atom_q p)(n := c ! i)\<rparr>)
         in add_atoms own types coords charge is (p, n + 1)))"

text \<open>Lines 163 to 175 on the process of rank \<open>r\<close>: clear all atoms, then add the owned ones.\<close>

definition rebuild_rank ::
  "'e ext \<Rightarrow> 'e sim \<Rightarrow> setup_args \<Rightarrow> nat \<Rightarrow> rank_state" where
  "rebuild_rank X s a r =
     fst (add_atoms (ownatom X s r) (the (a_types a)) (the (a_coords a)) (a_charge a)
            [0..<nat (sint (a_natoms a))]
            ((world s ! r)\<lparr>nlocal := 0, nghost := 0\<rparr>, 0))"

text \<open>Lines 154 to 159: the new box and the new decomposition.\<close>

definition setup_box :: "'e ext \<Rightarrow> setup_args \<Rightarrow> 'e sim \<Rightarrow> 'e sim" where
  "setup_box X a s =
     (let s = s\<lparr>domain := box_change (the (a_origin a)) (the (a_box a)) (domain s)\<rparr>;
          s = set_initial_box X s;
          s = set_global_box X s;
          s = set_proc_grid X s
      in set_local_box X s)"

text \<open>Lines 154 to 175: after the new box, the new local atoms of every process.\<close>

definition setup_atoms :: "'e ext \<Rightarrow> setup_args \<Rightarrow> 'e sim \<Rightarrow> 'e sim" where
  "setup_atoms X a s =
     (let s = setup_box X a s
      in s\<lparr>world := map (rebuild_rank X s a) [0..<length (world s)]\<rparr>)"

text \<open>The atom IDs of the local atoms of one process, in the order of their local indices.\<close>

definition local_ids :: "rank_state \<Rightarrow> int list" where
  "local_ids p = map (tag p) [0..<nlocal p]"

text \<open>Line 178: the value of \<^verbatim>\<open>ntotal\<close> on every process.\<close>

definition ntotal :: "'e sim \<Rightarrow> 32 word list" where
  "ntotal s = MPI_Allreduce_SUM_INT (map (\<lambda>p. of_nat (nlocal p)) (world s))"

text \<open>
  Line 179 holds on some process. (All entries of \<open>ntotal\<close> are equal, so it then holds on
  every process.)
\<close>

definition count_mismatch :: "'e sim \<Rightarrow> 32 word \<Rightarrow> bool" where
  "count_mismatch s n \<longleftrightarrow> list_ex (\<lambda>t. t \<noteq> n) (ntotal s)"

text \<open>Lines 182 to 196: the atom map, the system setup, the counters, the reply.\<close>

definition setup_forces :: "'e ext \<Rightarrow> int \<Rightarrow> setup_args \<Rightarrow> 'e server \<Rightarrow> 'e server" where
  "setup_forces X mid a sv =
     (let s = map_init X (sim sv);
          s = map_set X s;
          s = s\<lparr>natoms := nat (sint (a_natoms a))\<rparr>;
          s = s\<lparr>whichflag := 1\<rparr>;
          s = init X s;
          s = setup_minimal X 1 s;
          sv = sv\<lparr>sim := s, neighcalls := neighcalls sv + 1\<rparr>;
          sv = sv\<lparr>forcecalls := forcecalls sv + 1\<rparr>
      in send_fev mid sv)"

definition setup_msg :: "'e ext \<Rightarrow> message \<Rightarrow> 'e server \<Rightarrow> 'e result" where
  "setup_msg X m sv =
     (case setup_validate X (sim sv) m of
        Inl e \<Rightarrow> Fatal e sv
      | Inr a \<Rightarrow>
          (let sv = sv\<lparr>sim := setup_atoms X a (sim sv)\<rparr>
           in if count_mismatch (sim sv) (a_natoms a) then Fatal Atom_count_mismatch sv
              else Ok (setup_forces X (msgID m) a sv)))"

subsection \<open>The STEP message\<close>

text \<open>The local variables of the STEP branch, with their initial values.\<close>

record step_args =
  b_coords :: "real list option"
  b_origin :: "real list option"
  b_box :: "real list option"

definition step_args0 :: step_args where
  "step_args0 = \<lparr>b_coords = None, b_origin = None, b_box = None\<rparr>"

definition step_field :: "message \<Rightarrow> int \<Rightarrow> step_args \<Rightarrow> error + step_args" where
  "step_field m fid b =
     (if fid = COORDS then Inr (b\<lparr>b_coords := Some (unpack_COORDS m)\<rparr>)
      else if fid = ORIGIN then Inr (b\<lparr>b_origin := Some (unpack_ORIGIN m)\<rparr>)
      else if fid = BOX then Inr (b\<lparr>b_box := Some (unpack_BOX m)\<rparr>)
      else Inl Step_field_unknown)"

fun step_fields :: "message \<Rightarrow> int list \<Rightarrow> step_args \<Rightarrow> error + step_args" where
  "step_fields m [] b = Inr b"
| "step_fields m (fid # fids) b =
     (case step_field m fid b of
        Inl e \<Rightarrow> Inl e
      | Inr b' \<Rightarrow> step_fields m fids b')"

text \<open>
  Everything the STEP branch checks before it changes any state (lines 208 to 227). The
  triclinic test is made only when both ORIGIN and BOX were received.
\<close>

definition step_validate :: "'e sim \<Rightarrow> message \<Rightarrow> error + step_args" where
  "step_validate s m =
     (case step_fields m (fieldID m) step_args0 of
        Inl e \<Rightarrow> Inl e
      | Inr b \<Rightarrow>
          if b_coords b = None then Inl Step_field_missing
          else if b_origin b \<noteq> None \<and> b_box b \<noteq> None \<and>
                  tilted (the (b_box b)) \<and> triclinic (domain s) = 0
          then Inl Not_triclinic
          else Inr b)"

text \<open>Lines 224 to 231: the box changes only if origin and box were received.\<close>

definition step_box :: "'e ext \<Rightarrow> step_args \<Rightarrow> 'e sim \<Rightarrow> 'e sim" where
  "step_box X b s =
     (if b_origin b \<noteq> None \<and> b_box b \<noteq> None then
        (let s = s\<lparr>domain := box_change (the (b_origin b)) (the (b_box b)) (domain s)\<rparr>;
             s = set_global_box X s
         in set_local_box X s)
      else s)"

text \<open>
  \<^verbatim>\<open>&coords[j]\<close>: the three entries of \<open>coords\<close> from the cursor \<open>j\<close> on. A negative
  cursor, which \<open>j\<close> can only be after it has overflowed, makes the source read before the
  array; that is undefined, and the model finds nothing there.
\<close>

definition coords_at :: "real list \<Rightarrow> 32 word \<Rightarrow> real list" where
  "coords_at coords j = (if sint j < 0 then [] else take 3 (drop (nat (sint j)) coords))"

text \<open>
  The body of the loop of lines 241 to 248 on one process, for the atom ID \<open>aid\<close> and the
  cursor \<open>j\<close>, an \<^verbatim>\<open>int\<close>; \<open>ci\<close> is \<^verbatim>\<open>domain->closest_image\<close>.
\<close>

definition remap_atom ::
  "(real list \<Rightarrow> real list \<Rightarrow> real list) \<Rightarrow> real list \<Rightarrow> int \<Rightarrow> rank_state \<times> 32 word \<Rightarrow>
   rank_state \<times> 32 word" where
  "remap_atom ci coords aid pj =
     (let p = fst pj; j = snd pj; m = atom_map p aid
      in if m < 0 \<or> m \<ge> int (nlocal p) then (p, j + 3)
         else (p\<lparr>atom_x := (atom_x p)(nat m := ci (atom_x p (nat m)) (coords_at coords j))\<rparr>,
               j + 3))"

fun remap_atoms ::
  "(real list \<Rightarrow> real list \<Rightarrow> real list) \<Rightarrow> real list \<Rightarrow> int list \<Rightarrow> rank_state \<times> 32 word \<Rightarrow>
   rank_state \<times> 32 word" where
  "remap_atoms ci coords [] pj = pj"
| "remap_atoms ci coords (aid # ids) pj =
     remap_atoms ci coords ids (remap_atom ci coords aid pj)"

text \<open>
  Lines 240 to 248 on one process: \<open>j = 0\<close>, then the atom IDs from 1 to \<open>nall\<close>, an
  \<^verbatim>\<open>int\<close>. The 4-byte \<^verbatim>\<open>tagint id\<close> takes the values from 1 to \<open>nall\<close>, which the list
  holds exactly; the increment after the last of them overflows only for
  \<open>nall = INT_MAX\<close>, and the model leaves the loop there as for any other \<open>nall\<close>.
\<close>

definition remap_rank ::
  "(real list \<Rightarrow> real list \<Rightarrow> real list) \<Rightarrow> real list \<Rightarrow> 32 word \<Rightarrow> rank_state \<Rightarrow>
   rank_state \<times> 32 word" where
  "remap_rank ci coords nall p = remap_atoms ci coords [1..sint nall] (p, 0)"

text \<open>
  Lines 236 to 248 on every process. \<^verbatim>\<open>int nall = atom->natoms\<close> narrows the atom count
  to 32 bits.
\<close>

definition step_coords :: "'e ext \<Rightarrow> step_args \<Rightarrow> 'e sim \<Rightarrow> 'e sim" where
  "step_coords X b s =
     s\<lparr>world := map (\<lambda>p. fst (remap_rank (closest_image X s) (the (b_coords b))
                                (of_nat (natoms s)) p))
                  (world s)\<rparr>"

text \<open>Lines 256 to 267: the force evaluation, the counters, the reply.\<close>

definition step_forces :: "'e ext \<Rightarrow> int \<Rightarrow> 'e server \<Rightarrow> 'e server" where
  "step_forces X mid sv =
     (let nflag = decide X (sim sv);
          sv = (if nflag = 0 then sv\<lparr>sim := setup_minimal X 0 (forward_comm X (sim sv))\<rparr>
                else sv\<lparr>sim := setup_minimal X 1 (sim sv), neighcalls := neighcalls sv + 1\<rparr>);
          sv = sv\<lparr>forcecalls := forcecalls sv + 1\<rparr>
      in send_fev mid sv)"

definition step_msg :: "'e ext \<Rightarrow> message \<Rightarrow> 'e server \<Rightarrow> 'e result" where
  "step_msg X m sv =
     (case step_validate (sim sv) m of
        Inl e \<Rightarrow> Fatal e sv
      | Inr b \<Rightarrow>
          (let sv = sv\<lparr>sim := step_box X b (sim sv)\<rparr>;
               sv = sv\<lparr>sim := step_coords X b (sim sv)\<rparr>
           in Ok (step_forces X (msgID m) sv)))"

subsection \<open>\<^verbatim>\<open>ServerMD::loop\<close>\<close>

text \<open>The body of the loop for a message whose ID is not negative.\<close>

definition handle_msg :: "'e ext \<Rightarrow> message \<Rightarrow> 'e server \<Rightarrow> 'e result" where
  "handle_msg X m sv =
     (if msgID m = SETUP then setup_msg X m sv
      else if msgID m = STEP then step_msg X m sv
      else Fatal Unrecognized_message sv)"

text \<open>The final reply to the client, after the loop.\<close>

definition final_reply :: "'e server \<Rightarrow> 'e server" where
  "final_reply sv = sv\<lparr>sent := sent sv @ [closing_reply]\<rparr>"

text \<open>
  The run of the loop on the messages the client sends, in order. \<^verbatim>\<open>cs->recv\<close> takes the
  next one. Modelled from the spec: CSlib is not among the sources; a message with a
  negative ID is the client's end of session, and the transport reports the end of the
  stream in the same way, \<^verbatim>\<open>receive() -> Message | EndOfStream\<close>. The outcome holds
  the messages that were never received.
\<close>

datatype 'e outcome = Aborted error "'e server" "message list" | Finished "'e server" "message list"

fun loop :: "'e ext \<Rightarrow> 'e server \<Rightarrow> message list \<Rightarrow> 'e outcome" where
  "loop X sv [] = Finished (final_reply sv) []"
| "loop X sv (m # ms) =
     (if msgID m < 0 then Finished (final_reply sv) ms
      else
        (case handle_msg X m sv of
           Fatal e sv' \<Rightarrow> Aborted e sv' ms
         | Ok sv' \<Rightarrow> loop X sv' ms))"

text \<open>The state in which \<^verbatim>\<open>loop\<close> starts: both counters are 0 and nothing was sent.\<close>

definition server0 :: "'e sim \<Rightarrow> 'e server" where
  "server0 s = \<lparr>sim = s, forcecalls = 0, neighcalls = 0, sent = []\<rparr>"

subsection \<open>A small process group\<close>

text \<open>
  Two processes that split the box at \<open>x = 5\<close>, with collaborators simple enough to run:
  the atom map is rebuilt from the tags, and the force evaluation reports the number of
  local atoms as energy and as every virial component.
\<close>

definition rank0 :: rank_state where
  "rank0 =
     \<lparr>nlocal = 0, nghost = 0, tag = (\<lambda>_. 0), atom_type = (\<lambda>_. 0), atom_x = (\<lambda>_. []),
      atom_q = (\<lambda>_. 0), atom_f = (\<lambda>_. [0, 0, 0]), atom_map = (\<lambda>_. - 1),
      eng_vdwl = 0, eng_coul = 0, virial = [0, 0, 0, 0, 0, 0], kspace = None\<rparr>"

definition sim0 :: "unit sim" where
  "sim0 =
     \<lparr>domain = \<lparr>dimension = 3, periodicity = [1, 1, 1], triclinic = 0,
                boxlo = [0, 0, 0], boxhi = [10, 10, 10], xy = 0, xz = 0, yz = 0\<rparr>,
      natoms = 0, ntypes = 1, q_flag = 0, whichflag = 0, world = [rank0, rank0],
      engine = ()\<rparr>"

definition tag_index :: "rank_state \<Rightarrow> int \<Rightarrow> int" where
  "tag_index p aid =
     (case find (\<lambda>i. tag p i = aid) [0..<nlocal p + nghost p] of
        None \<Rightarrow> - 1
      | Some i \<Rightarrow> int i)"

definition toy_forces :: "rank_state \<Rightarrow> rank_state" where
  "toy_forces p =
     p\<lparr>eng_vdwl := of_nat (nlocal p), virial := map (\<lambda>i. of_nat (nlocal p)) [0..<6]\<rparr>"

definition ext0 :: "unit ext" where
  "ext0 =
     \<lparr>set_initial_box = (\<lambda>s. s), set_global_box = (\<lambda>s. s), set_proc_grid = (\<lambda>s. s),
      set_local_box = (\<lambda>s. s),
      ownatom = (\<lambda>s r aid x. if r = 0 then x ! 0 < 5 else 5 \<le> x ! 0),
      closest_image = (\<lambda>s xi xj. xj),
      map_init = (\<lambda>s. s\<lparr>world := map (\<lambda>p. p\<lparr>atom_map := (\<lambda>_. - 1)\<rparr>) (world s)\<rparr>),
      map_set = (\<lambda>s. s\<lparr>world := map (\<lambda>p. p\<lparr>atom_map := tag_index p\<rparr>) (world s)\<rparr>),
      init = (\<lambda>s. s),
      setup_minimal = (\<lambda>flag s. s\<lparr>world := map toy_forces (world s)\<rparr>),
      decide = (\<lambda>s. 0),
      forward_comm = (\<lambda>s. s),
      periodicity_op = (\<or>)\<rparr>"

text \<open>The same group with an ownership test that both processes answer alike.\<close>

definition ext_overlap :: "unit ext" where
  "ext_overlap = ext0\<lparr>ownatom := (\<lambda>s r aid x. x ! 0 < 5)\<rparr>"

definition msg0 :: message where
  "msg0 =
     \<lparr>msgID = 0, fieldID = [], unpack_DIM = 0, unpack_PERIODICITY = [], unpack_ORIGIN = [],
      unpack_BOX = [], unpack_NATOMS = 0, unpack_NTYPES = 0, unpack_TYPES = [],
      unpack_COORDS = [], unpack_CHARGE = []\<rparr>"

text \<open>A SETUP message with two atoms, one on each side of \<open>x = 5\<close>.\<close>

definition msg_setup :: message where
  "msg_setup =
     msg0\<lparr>msgID := 1, fieldID := [1, 2, 3, 4, 5, 6, 7, 8], unpack_DIM := 3,
          unpack_PERIODICITY := [1, 1, 1], unpack_ORIGIN := [0, 0, 0],
          unpack_BOX := [10, 0, 0, 0, 10, 0, 0, 0, 10], unpack_NATOMS := 2,
          unpack_NTYPES := 1, unpack_TYPES := [1, 1], unpack_COORDS := [1, 1, 1, 6, 6, 6]\<rparr>"

text \<open>A STEP message with the coordinates of two atoms and no box.\<close>

definition msg_step :: message where
  "msg_step = msg0\<lparr>msgID := 2, fieldID := [8], unpack_COORDS := [2, 2, 2, 7, 7, 7]\<rparr>"

text \<open>The client's end of session.\<close>

definition msg_end :: message where
  "msg_end = msg0\<lparr>msgID := - 1\<rparr>"

text \<open>A STEP message with a tilted box and no origin.\<close>

definition msg_step_tilted :: message where
  "msg_step_tilted =
     msg_step\<lparr>fieldID := [8, 4], unpack_BOX := [10, 0, 0, 1, 10, 0, 0, 0, 10]\<rparr>"

text \<open>A SETUP message with no atom.\<close>

definition msg_setup_empty :: message where
  "msg_setup_empty = msg_setup\<lparr>unpack_NATOMS := 0, unpack_TYPES := [], unpack_COORDS := []\<rparr>"

subsection \<open>Auxiliary definitions\<close>

text \<open>
  The local variables of a run on a message that carries another box \<open>b'\<close>: where the
  run has unpacked a box, it is \<open>b'\<close>.
\<close>

definition with_box :: "real list \<Rightarrow> setup_args \<Rightarrow> setup_args" where
  "with_box b' a = a\<lparr>a_box := map_option (\<lambda>_. b') (a_box a)\<rparr>"

definition with_box_step :: "real list \<Rightarrow> step_args \<Rightarrow> step_args" where
  "with_box_step b' b = b\<lparr>b_box := map_option (\<lambda>_. b') (b_box b)\<rparr>"

text \<open>
  The ownership test of line 170 on the process of rank \<open>r\<close>, for the atom of index \<open>i\<close>
  of the message.
\<close>

definition owns :: "'e ext \<Rightarrow> 'e sim \<Rightarrow> setup_args \<Rightarrow> nat \<Rightarrow> nat \<Rightarrow> bool" where
  "owns X s a r i \<longleftrightarrow> ownatom X s r (int i + 1) (take 3 (drop (3 * i) (the (a_coords a))))"

text \<open>The local variables of the SETUP branch after the fields of \<open>msg_setup\<close>.\<close>

definition args_setup :: setup_args where
  "args_setup =
     \<lparr>a_dim = 3, a_periodicity = Some [1, 1, 1], a_natoms = 2, a_ntypes = 1,
      a_origin = Some [0, 0, 0], a_box = Some [10, 0, 0, 0, 10, 0, 0, 0, 10],
      a_types = Some [1, 1], a_coords = Some [1, 1, 1, 6, 6, 6], a_charge = None\<rparr>"

text \<open>
  The test of line 243 fails for the atom ID: the map sends it to an owned local atom.
\<close>

definition owned :: "rank_state \<Rightarrow> int \<Rightarrow> bool" where
  "owned p aid \<longleftrightarrow> 0 \<le> atom_map p aid \<and> atom_map p aid < int (nlocal p)"

text \<open>A process that owns the atom 2 alone, at the local index 0.\<close>

definition rank_two :: rank_state where
  "rank_two =
     rank0\<lparr>nlocal := 1, tag := (\<lambda>_. 0)(0 := 2), atom_x := (\<lambda>_. [])(0 := [6, 6, 6]),
           atom_map := (\<lambda>_. - 1)(2 := 0)\<rparr>"

section \<open>Properties\<close>

lemmas field_ids =
  DIM_def PERIODICITY_def ORIGIN_def BOX_def NATOMS_def NTYPES_def TYPES_def COORDS_def
  CHARGE_def

lemmas demo_defs =
  msg0_def msg_setup_def msg_step_def msg_end_def msg_step_tilted_def msg_setup_empty_def
  sim0_def rank0_def ext0_def ext_overlap_def server0_def

lemmas handler_defs =
  handle_msg_def setup_msg_def setup_validate_def setup_field_def setup_args0_def
  periodicity_differs_def exceeds_max_atoms_def tilted_def setup_box_def setup_atoms_def
  rebuild_rank_def
  create_atom_def count_mismatch_def ntotal_def MPI_Allreduce_SUM_INT_def setup_forces_def
  step_msg_def step_validate_def step_field_def step_args0_def step_box_def step_coords_def
  remap_rank_def remap_atom_def coords_at_def step_forces_def send_fev_def box_change_def
  SETUP_def STEP_def INT_MAX_def field_ids Let_def

lemma upt2: "[0..<2] = [0, 1]"
  by (simp add: upt_rec)

subsection \<open>The box\<close>

lemma length3E: "length xs = 3 \<Longrightarrow> \<exists>a b c. xs = [a, b, c]"
  by (auto simp: length_Suc_conv numeral_3_eq_3)

text \<open>
  Claim C7. \<^verbatim>\<open>box_change\<close> is a function of the origin and the box tensor alone: on a
  domain whose bound arrays have their three entries, it sets the lower bound of axis \<open>k\<close>
  to \<open>origin[k]\<close>, the upper bound to \<open>origin[k]\<close> plus the diagonal entry \<open>box[4k]\<close>
  (indices 0, 4, 8), the tilt factors xy, xz, yz to \<open>box[3]\<close>, \<open>box[6]\<close>, \<open>box[7]\<close>, and
  leaves every other field of the domain as it was.
\<close>

theorem box_change_installs:
  assumes "length (boxlo d) = 3" and "length (boxhi d) = 3"
  shows "box_change origin box d =
           d\<lparr>boxlo := map (\<lambda>k. origin ! k) [0..<3],
             boxhi := map (\<lambda>k. origin ! k + box ! (4 * k)) [0..<3],
             xy := box ! 3, xz := box ! 6, yz := box ! 7\<rparr>"
proof -
  obtain a b c where lo: "boxlo d = [a, b, c]"
    using length3E [OF assms(1)] by blast
  obtain a' b' c' where hi: "boxhi d = [a', b', c']"
    using length3E [OF assms(2)] by blast
  have three: "[0..<3] = [0, 1, 2]"
    by (simp add: upt_rec)
  show ?thesis
    by (simp add: box_change_def Let_def lo hi three)
qed

theorem box_change_installs_witness:
  "length (boxlo (domain sim0)) = 3 \<and> length (boxhi (domain sim0)) = 3 \<and>
   box_change [1, 2, 3] [10, 0, 0, 0.5, 20, 0, 0.25, 0.125, 30] (domain sim0) =
     \<lparr>dimension = 3, periodicity = [1, 1, 1], triclinic = 0,
      boxlo = [1, 2, 3], boxhi = [11, 22, 33], xy = 0.5, xz = 0.25, yz = 0.125\<rparr>"
proof -
  have lo: "length (boxlo (domain sim0)) = 3" and hi: "length (boxhi (domain sim0)) = 3"
    by (simp_all add: sim0_def)
  have three: "[0..<3] = [0, 1, 2]"
    by (simp add: upt_rec)
  show ?thesis
    using box_change_installs [OF lo hi, of "[1, 2, 3]" "[10, 0, 0, 0.5, 20, 0, 0.25, 0.125, 30]"]
    by (simp add: sim0_def three)
qed


subsection \<open>The field loops\<close>

lemma setup_field_box:
  "setup_field X s m fid a = Inr a' \<Longrightarrow>
   a_box a' = (if fid = BOX then Some (unpack_BOX m) else a_box a)"
  by (auto simp: setup_field_def Let_def field_ids split: if_splits)

lemma setup_fields_box:
  "setup_fields X s m fids a = Inr a' \<Longrightarrow>
   a_box a' = (if BOX \<in> set fids then Some (unpack_BOX m) else a_box a)"
proof (induction fids arbitrary: a)
  case Nil
  then show ?case by simp
next
  case (Cons fid fids)
  then obtain a1 where 1: "setup_field X s m fid a = Inr a1"
    and 2: "setup_fields X s m fids a1 = Inr a'"
    by (auto split: sum.splits)
  show ?case
    using Cons.IH [OF 2] setup_field_box [OF 1] by auto
qed

lemma setup_field_natoms:
  "setup_field X s m fid a = Inr a' \<Longrightarrow>
   a_natoms a' = (if fid = NATOMS then unpack_NATOMS m else a_natoms a)"
  by (auto simp: setup_field_def Let_def field_ids split: if_splits)

lemma setup_fields_natoms:
  "setup_fields X s m fids a = Inr a' \<Longrightarrow>
   a_natoms a' = (if NATOMS \<in> set fids then unpack_NATOMS m else a_natoms a)"
proof (induction fids arbitrary: a)
  case Nil
  then show ?case by simp
next
  case (Cons fid fids)
  then obtain a1 where 1: "setup_field X s m fid a = Inr a1"
    and 2: "setup_fields X s m fids a1 = Inr a'"
    by (auto split: sum.splits)
  show ?case
    using Cons.IH [OF 2] setup_field_natoms [OF 1] by auto
qed

lemma setup_fields_periodicity:
  "PERIODICITY \<in> set fids \<Longrightarrow> setup_fields X s m fids a = Inr a' \<Longrightarrow>
   \<not> periodicity_differs (periodicity_op X) (unpack_PERIODICITY m) (periodicity (domain s))"
proof (induction fids arbitrary: a)
  case Nil
  then show ?case by simp
next
  case (Cons fid fids)
  then obtain a1 where 1: "setup_field X s m fid a = Inr a1"
    and 2: "setup_fields X s m fids a1 = Inr a'"
    by (auto split: sum.splits)
  show ?case
  proof (cases "fid = PERIODICITY")
    case True
    with 1 show ?thesis
      by (auto simp: setup_field_def Let_def field_ids split: if_splits)
  next
    case False
    with Cons.prems(1) have "PERIODICITY \<in> set fids" by simp
    then show ?thesis using Cons.IH 2 by blast
  qed
qed

lemma step_field_cases:
  "step_field m fid b = Inr b' \<Longrightarrow>
   fid \<in> {COORDS, ORIGIN, BOX} \<and>
   b_coords b' = (if fid = COORDS then Some (unpack_COORDS m) else b_coords b) \<and>
   b_origin b' = (if fid = ORIGIN then Some (unpack_ORIGIN m) else b_origin b) \<and>
   b_box b' = (if fid = BOX then Some (unpack_BOX m) else b_box b)"
  by (auto simp: step_field_def field_ids split: if_splits)

lemma step_fields_Inr:
  "step_fields m fids b = Inr b' \<Longrightarrow>
   set fids \<subseteq> {COORDS, ORIGIN, BOX} \<and>
   b_coords b' = (if COORDS \<in> set fids then Some (unpack_COORDS m) else b_coords b) \<and>
   b_origin b' = (if ORIGIN \<in> set fids then Some (unpack_ORIGIN m) else b_origin b) \<and>
   b_box b' = (if BOX \<in> set fids then Some (unpack_BOX m) else b_box b)"
proof (induction fids arbitrary: b)
  case Nil
  then show ?case by simp
next
  case (Cons fid fids)
  then obtain b1 where 1: "step_field m fid b = Inr b1"
    and 2: "step_fields m fids b1 = Inr b'"
    by (auto split: sum.splits)
  show ?case
    using Cons.IH [OF 2] step_field_cases [OF 1] by (auto simp: field_ids)
qed

lemma step_fields_known:
  "set fids \<subseteq> {COORDS, ORIGIN, BOX} \<Longrightarrow> \<exists>b'. step_fields m fids b = Inr b'"
proof (induction fids arbitrary: b)
  case Nil
  then show ?case by simp
next
  case (Cons fid fids)
  then have "fid \<in> {COORDS, ORIGIN, BOX}" and rest: "set fids \<subseteq> {COORDS, ORIGIN, BOX}"
    by auto
  then obtain b1 where 1: "step_field m fid b = Inr b1"
    by (auto simp: step_field_def field_ids)
  show ?case
    using Cons.IH [OF rest, of b1] 1 by simp
qed

subsection \<open>A tilted box on a server that is not triclinic\<close>

lemma setup_validate_tilted:
  assumes "tilted (unpack_BOX m)" and "triclinic (domain s) = 0"
  shows "\<exists>e. setup_validate X s m = Inl e"
proof (cases "setup_fields X s m (fieldID m) setup_args0")
  case (Inl e)
  then show ?thesis by (simp add: setup_validate_def)
next
  case (Inr a)
  have "a_box a = None \<or> a_box a = Some (unpack_BOX m)"
    using setup_fields_box [OF Inr] by (simp add: setup_args0_def)
  then show ?thesis
    using assms Inr by (auto simp: setup_validate_def)
qed

lemma step_validate_tilted:
  assumes "ORIGIN \<in> set (fieldID m)" and "BOX \<in> set (fieldID m)"
    and "tilted (unpack_BOX m)" and "triclinic (domain s) = 0"
  shows "\<exists>e. step_validate s m = Inl e"
proof (cases "step_fields m (fieldID m) step_args0")
  case (Inl e)
  then show ?thesis by (simp add: step_validate_def)
next
  case (Inr b)
  have "b_origin b = Some (unpack_ORIGIN m)" and "b_box b = Some (unpack_BOX m)"
    using step_fields_Inr [OF Inr] assms(1,2) by simp_all
  then show ?thesis
    using assms(3,4) Inr by (auto simp: step_validate_def)
qed

text \<open>
  Claim C4, as amended. A SETUP message, or a STEP message that carries both ORIGIN and
  BOX, whose box tensor has a non-zero entry at index 3, 6 or 7 while the server is not
  triclinic, is fatal before the box is installed: the state at the error, box geometry
  included, is the state before the message.
\<close>

theorem tilted_box_rejected:
  assumes "tilted (unpack_BOX m)" and "triclinic (domain (sim sv)) = 0"
    and "msgID m = SETUP \<or>
         msgID m = STEP \<and> ORIGIN \<in> set (fieldID m) \<and> BOX \<in> set (fieldID m)"
  shows "\<exists>e. handle_msg X m sv = Fatal e sv"
proof (cases "msgID m = SETUP")
  case True
  obtain e where "setup_validate X (sim sv) m = Inl e"
    using setup_validate_tilted [OF assms(1,2)] by blast
  then show ?thesis
    using True by (simp add: handle_msg_def setup_msg_def)
next
  case False
  with assms(3) have step: "msgID m = STEP" and o: "ORIGIN \<in> set (fieldID m)"
    and b: "BOX \<in> set (fieldID m)"
    by auto
  obtain e where "step_validate (sim sv) m = Inl e"
    using step_validate_tilted [OF o b assms(1,2)] by blast
  then show ?thesis
    using step False by (simp add: handle_msg_def step_msg_def)
qed

text \<open>
  Claim C4 as stated fails for a STEP message that carries BOX without ORIGIN: the
  triclinic test is skipped with the box change, and the message is answered.
\<close>

theorem tilted_step_without_origin_accepted:
  "tilted (unpack_BOX msg_step_tilted) \<and> triclinic (domain (sim (server0 sim0))) = 0 \<and>
   msgID msg_step_tilted = STEP \<and> BOX \<in> set (fieldID msg_step_tilted) \<and>
   (\<exists>sv. handle_msg ext0 msg_step_tilted (server0 sim0) = Ok sv)"
  by (simp add: demo_defs handler_defs)

theorem tilted_box_rejected_witness:
  "tilted (unpack_BOX (msg_setup\<lparr>unpack_BOX := [10, 0, 0, 1, 10, 0, 0, 0, 10]\<rparr>)) \<and>
   triclinic (domain (sim (server0 sim0))) = 0 \<and>
   (\<exists>e. handle_msg ext0 (msg_setup\<lparr>unpack_BOX := [10, 0, 0, 1, 10, 0, 0, 0, 10]\<rparr>)
           (server0 sim0) = Fatal e (server0 sim0)) \<and>
   (\<exists>e. handle_msg ext0 (msg_step_tilted\<lparr>fieldID := [8, 3, 4]\<rparr>)
           (server0 sim0) = Fatal e (server0 sim0))"
proof -
  let ?m1 = "msg_setup\<lparr>unpack_BOX := [10, 0, 0, 1, 10, 0, 0, 0, 10]\<rparr>"
  let ?m2 = "msg_step_tilted\<lparr>fieldID := [8, 3, 4]\<rparr>"
  have t1: "tilted (unpack_BOX ?m1)" and t2: "tilted (unpack_BOX ?m2)"
    by (simp_all add: tilted_def msg_step_tilted_def)
  have tri: "triclinic (domain (sim (server0 sim0))) = 0"
    by (simp add: server0_def sim0_def)
  have k1: "msgID ?m1 = SETUP \<or>
            msgID ?m1 = STEP \<and> ORIGIN \<in> set (fieldID ?m1) \<and> BOX \<in> set (fieldID ?m1)"
    by (simp add: msg_setup_def SETUP_def)
  have k2: "msgID ?m2 = SETUP \<or>
            msgID ?m2 = STEP \<and> ORIGIN \<in> set (fieldID ?m2) \<and> BOX \<in> set (fieldID ?m2)"
    by (simp add: msg_step_tilted_def msg_step_def STEP_def field_ids)
  show ?thesis
    using tilted_box_rejected [OF t1 tri k1, of ext0] tilted_box_rejected [OF t2 tri k2, of ext0]
      t1 tri
    by simp
qed

subsection \<open>The number of atoms of a SETUP message\<close>

text \<open>
  The product \<^verbatim>\<open>3*natoms\<close> is an \<^verbatim>\<open>int\<close>, and no \<^verbatim>\<open>int\<close> is greater than
  \<^verbatim>\<open>INT_MAX\<close>.
\<close>

lemma max_atoms_test_never_holds: "\<not> exceeds_max_atoms n"
  unfolding exceeds_max_atoms_def INT_MAX_def
  using sint_lt [of "3 * n"] by simp

text \<open>So the error \<open>Max_atoms\<close> is never raised, whatever NATOMS is.\<close>

lemma setup_fields_not_Max_atoms: "setup_fields X s m fids a \<noteq> Inl Max_atoms"
proof (induction fids arbitrary: a)
  case Nil
  then show ?case by simp
next
  case (Cons fid fids)
  have "setup_field X s m fid a \<noteq> Inl Max_atoms"
    by (simp add: setup_field_def max_atoms_test_never_holds Let_def)
  then show ?case
    using Cons.IH by (cases "setup_field X s m fid a") simp_all
qed

lemma handle_msg_not_Max_atoms: "handle_msg X m sv \<noteq> Fatal Max_atoms sv'"
proof -
  have "setup_validate X (sim sv) m \<noteq> Inl Max_atoms"
    using setup_fields_not_Max_atoms [of X "sim sv" m "fieldID m" setup_args0]
    by (auto simp: setup_validate_def split: sum.splits)
  then have "setup_msg X m sv \<noteq> Fatal Max_atoms sv'"
    by (auto simp: setup_msg_def Let_def split: sum.splits)
  moreover have "step_msg X m sv \<noteq> Fatal Max_atoms sv'"
  proof -
    have "step_fields m fids b \<noteq> Inl Max_atoms" for fids b
    proof (induction fids arbitrary: b)
      case Nil
      then show ?case by simp
    next
      case (Cons fid fids)
      have "step_field m fid b \<noteq> Inl Max_atoms"
        by (simp add: step_field_def)
      then show ?case
        using Cons.IH by (cases "step_field m fid b") simp_all
    qed
    then have "step_validate (sim sv) m \<noteq> Inl Max_atoms"
      by (auto simp: step_validate_def split: sum.splits)
    then show ?thesis
      by (auto simp: step_msg_def Let_def split: sum.splits)
  qed
  ultimately show ?thesis
    by (simp add: handle_msg_def)
qed

lemma setup_validate_natoms:
  assumes "setup_validate X s m = Inr a"
  shows "NATOMS \<in> set (fieldID m) \<and> 0 \<le> sint (unpack_NATOMS m)"
proof -
  obtain a0 where f: "setup_fields X s m (fieldID m) setup_args0 = Inr a0"
    using assms by (auto simp: setup_validate_def split: sum.splits)
  have a: "a0 = a" and nonneg: "0 \<le> sint (a_natoms a0)"
    using assms f by (auto simp: setup_validate_def split: if_splits)
  have n: "a_natoms a0 = (if NATOMS \<in> set (fieldID m) then unpack_NATOMS m else - 1)"
    using setup_fields_natoms [OF f] by (simp add: setup_args0_def)
  show ?thesis
    using nonneg n by (auto split: if_splits)
qed

text \<open>
  Claim C5, as amended. A SETUP message whose NATOMS is negative, or missing, is fatal
  before any state changes, so before any atom is created.
\<close>

theorem negative_natoms_rejected:
  assumes "msgID m = SETUP"
    and "sint (unpack_NATOMS m) < 0 \<or> NATOMS \<notin> set (fieldID m)"
  shows "\<exists>e. handle_msg X m sv = Fatal e sv"
proof (cases "setup_validate X (sim sv) m")
  case (Inl e)
  then show ?thesis
    using assms(1) by (simp add: handle_msg_def setup_msg_def)
next
  case (Inr a)
  then show ?thesis
    using setup_validate_natoms [OF Inr] assms(2) by auto
qed

theorem negative_natoms_rejected_witness:
  "sint (unpack_NATOMS (msg_setup\<lparr>unpack_NATOMS := - 5\<rparr>)) < 0 \<and>
   (\<exists>e. handle_msg ext0 (msg_setup\<lparr>unpack_NATOMS := - 5\<rparr>) (server0 sim0) =
          Fatal e (server0 sim0))"
proof -
  let ?m = "msg_setup\<lparr>unpack_NATOMS := - 5\<rparr>"
  have k: "msgID ?m = SETUP" by (simp add: msg_setup_def SETUP_def)
  have n: "sint (unpack_NATOMS ?m) < 0" by simp
  then have n': "sint (unpack_NATOMS ?m) < 0 \<or> NATOMS \<notin> set (fieldID ?m)" by blast
  show ?thesis
    using negative_natoms_rejected [OF k n', of ext0 "server0 sim0"] n by simp
qed

text \<open>
  Claim C5 as stated fails at NATOMS = 0, which is not positive: the message passes every
  check and is answered, with no atom on either process.
\<close>

theorem zero_natoms_accepted:
  "sint (unpack_NATOMS msg_setup_empty) = 0 \<and> msgID msg_setup_empty = SETUP \<and>
   (\<exists>sv. handle_msg ext0 msg_setup_empty (server0 sim0) = Ok sv \<and>
         map nlocal (world (sim sv)) = [0, 0])"
  by (simp add: demo_defs handler_defs toy_forces_def)


subsection \<open>The periodicity of a SETUP message\<close>

lemma periodicity_differs_or:
  "periodicity_differs (\<or>) p dp \<longleftrightarrow> (\<exists>k<3. p ! k \<noteq> dp ! k)"
proof -
  have "(\<exists>k<3. p ! k \<noteq> dp ! k) \<longleftrightarrow> (\<exists>k\<in>{0, 1, 2::nat}. p ! k \<noteq> dp ! k)"
  proof -
    have "{k::nat. k < 3} = {0, 1, 2}" by auto
    then show ?thesis by blast
  qed
  then show ?thesis by (simp add: periodicity_differs_def)
qed

lemma setup_validate_periodicity:
  assumes "PERIODICITY \<in> set (fieldID m)"
    and "periodicity_differs (periodicity_op X) (unpack_PERIODICITY m) (periodicity (domain s))"
  shows "\<exists>e. setup_validate X s m = Inl e"
proof (cases "setup_fields X s m (fieldID m) setup_args0")
  case (Inl e)
  then show ?thesis by (simp add: setup_validate_def)
next
  case (Inr a)
  then show ?thesis
    using setup_fields_periodicity [OF assms(1) Inr] assms(2) by simp
qed

text \<open>
  What claim C6 says holds when the missing operator is \<open>||\<close>: a mismatch on any axis, be
  it only the second or only the third, makes the PERIODICITY field the error
  \<open>Periodicity_mismatch\<close> and a SETUP message that carries it fatal with the state
  unchanged; three matching flags pass.
\<close>

lemma periodicity_checked_if_or:
  assumes "periodicity_op X = (\<or>)"
  shows
  "((\<exists>k<3. unpack_PERIODICITY m ! k \<noteq> periodicity (domain (sim sv)) ! k) \<longrightarrow>
      setup_field X (sim sv) m PERIODICITY a = Inl Periodicity_mismatch \<and>
      (msgID m = SETUP \<and> PERIODICITY \<in> set (fieldID m) \<longrightarrow>
         (\<exists>e. handle_msg X m sv = Fatal e sv))) \<and>
   ((\<forall>k<3. unpack_PERIODICITY m ! k = periodicity (domain (sim sv)) ! k) \<longrightarrow>
      setup_field X (sim sv) m PERIODICITY a =
        Inr (a\<lparr>a_periodicity := Some (unpack_PERIODICITY m)\<rparr>))"
proof (intro conjI impI)
  assume d: "\<exists>k<3. unpack_PERIODICITY m ! k \<noteq> periodicity (domain (sim sv)) ! k"
  then have pd: "periodicity_differs (periodicity_op X) (unpack_PERIODICITY m)
                   (periodicity (domain (sim sv)))"
    by (simp add: assms periodicity_differs_or)
  then show "setup_field X (sim sv) m PERIODICITY a = Inl Periodicity_mismatch"
    by (simp add: setup_field_def field_ids)
  assume "msgID m = SETUP \<and> PERIODICITY \<in> set (fieldID m)"
  then have k: "msgID m = SETUP" and p: "PERIODICITY \<in> set (fieldID m)"
    by simp_all
  obtain e where "setup_validate X (sim sv) m = Inl e"
    using setup_validate_periodicity [OF p pd] by blast
  then show "\<exists>e. handle_msg X m sv = Fatal e sv"
    using k by (simp add: handle_msg_def setup_msg_def)
next
  assume "\<forall>k<3. unpack_PERIODICITY m ! k = periodicity (domain (sim sv)) ! k"
  then have "\<not> periodicity_differs (periodicity_op X) (unpack_PERIODICITY m)
                 (periodicity (domain (sim sv)))"
    by (simp add: assms periodicity_differs_or)
  then show "setup_field X (sim sv) m PERIODICITY a =
               Inr (a\<lparr>a_periodicity := Some (unpack_PERIODICITY m)\<rparr>)"
    by (simp add: setup_field_def field_ids)
qed

text \<open>
  Whatever the missing operator is, a mismatch on the first axis is the error
  \<open>Periodicity_mismatch\<close>.
\<close>

lemma first_axis_checked:
  assumes "unpack_PERIODICITY m ! 0 \<noteq> periodicity (domain s) ! 0"
  shows "setup_field X s m PERIODICITY a = Inl Periodicity_mismatch"
  using assms by (simp add: setup_field_def periodicity_differs_def field_ids)

text \<open>
  Claim C6 rests on the operator that the source lacks. For the client flags 1, 0, 1 and
  the server flags 1, 1, 1, a mismatch on the second axis alone, the PERIODICITY field is
  the error \<open>Periodicity_mismatch\<close> when the missing operator is \<open>||\<close>, and it passes,
  with the whole message answered, when the missing operator is \<open>&&\<close>.
\<close>

theorem periodicity_test_rests_on_missing_operator:
  "setup_field ext0 sim0 (msg_setup\<lparr>unpack_PERIODICITY := [1, 0, 1]\<rparr>) PERIODICITY setup_args0 =
     Inl Periodicity_mismatch \<and>
   setup_field (ext0\<lparr>periodicity_op := (\<and>)\<rparr>) sim0
       (msg_setup\<lparr>unpack_PERIODICITY := [1, 0, 1]\<rparr>) PERIODICITY setup_args0 =
     Inr (setup_args0\<lparr>a_periodicity := Some [1, 0, 1]\<rparr>) \<and>
   (\<exists>sv. handle_msg (ext0\<lparr>periodicity_op := (\<and>)\<rparr>)
           (msg_setup\<lparr>unpack_PERIODICITY := [1, 0, 1]\<rparr>) (server0 sim0) = Ok sv)"
  by (simp add: demo_defs handler_defs upt2)

subsection \<open>The entries of the box tensor that are read\<close>

lemma box_change_cong:
  assumes "\<forall>i\<in>{0, 3, 4, 6, 7, 8}. b' ! i = b ! i"
  shows "box_change origin b' d = box_change origin b d"
  using assms by (simp add: box_change_def)

lemma tilted_cong:
  assumes "\<forall>i\<in>{0, 3, 4, 6, 7, 8}. b' ! i = b ! i"
  shows "tilted b' = tilted b"
  using assms by (simp add: tilted_def)

lemma setup_field_with_box:
  "setup_field X s (m\<lparr>unpack_BOX := b'\<rparr>) fid (with_box b' a) =
     map_sum (\<lambda>e. e) (with_box b') (setup_field X s m fid a)"
  by (simp add: setup_field_def with_box_def Let_def field_ids)

lemma setup_fields_with_box:
  "setup_fields X s (m\<lparr>unpack_BOX := b'\<rparr>) fids (with_box b' a) =
     map_sum (\<lambda>e. e) (with_box b') (setup_fields X s m fids a)"
proof (induction fids arbitrary: a)
  case Nil
  then show ?case by simp
next
  case (Cons fid fids)
  show ?case
  proof (cases "setup_field X s m fid a")
    case (Inl e)
    then show ?thesis by (simp add: setup_field_with_box)
  next
    case (Inr a1)
    then show ?thesis by (simp add: setup_field_with_box Cons.IH)
  qed
qed

lemma setup_validate_with_box:
  assumes "\<forall>i\<in>{0, 3, 4, 6, 7, 8}. b' ! i = unpack_BOX m ! i"
  shows "setup_validate X s (m\<lparr>unpack_BOX := b'\<rparr>) =
           map_sum (\<lambda>e. e) (with_box b') (setup_validate X s m)"
proof -
  have 0: "with_box b' setup_args0 = setup_args0"
    by (simp add: with_box_def setup_args0_def)
  have f: "setup_fields X s (m\<lparr>unpack_BOX := b'\<rparr>) (fieldID m) setup_args0 =
             map_sum (\<lambda>e. e) (with_box b') (setup_fields X s m (fieldID m) setup_args0)"
    using setup_fields_with_box [where a = setup_args0 and b' = b'] by (simp add: 0)
  show ?thesis
  proof (cases "setup_fields X s m (fieldID m) setup_args0")
    case (Inl e)
    then show ?thesis using f by (simp add: setup_validate_def)
  next
    case (Inr a)
    have "a_box a = None \<or> a_box a = Some (unpack_BOX m)"
      using setup_fields_box [OF Inr] by (simp add: setup_args0_def)
    then show ?thesis
    proof
      assume "a_box a = None"
      then show ?thesis using f Inr by (simp add: setup_validate_def with_box_def)
    next
      assume b: "a_box a = Some (unpack_BOX m)"
      have t: "tilted b' = tilted (unpack_BOX m)"
        using tilted_cong [OF assms] .
      show ?thesis using f Inr b t by (simp add: setup_validate_def with_box_def)
    qed
  qed
qed

lemma setup_validate_box:
  assumes "setup_validate X s m = Inr a"
  shows "a_box a = Some (unpack_BOX m)"
proof -
  obtain a0 where f: "setup_fields X s m (fieldID m) setup_args0 = Inr a0"
    using assms by (auto simp: setup_validate_def split: sum.splits)
  have a: "a0 = a" and some: "a_box a0 \<noteq> None"
    using assms f by (auto simp: setup_validate_def split: if_splits)
  show ?thesis
    using setup_fields_box [OF f] some a by (auto simp: setup_args0_def split: if_splits)
qed

lemma setup_atoms_with_box:
  assumes "\<forall>i\<in>{0, 3, 4, 6, 7, 8}. b' ! i = b ! i" and "a_box a = Some b"
  shows "setup_atoms X (with_box b' a) s = setup_atoms X a s"
proof -
  have bc: "box_change (the (a_origin a)) b' (domain s) =
            box_change (the (a_origin a)) b (domain s)"
    using box_change_cong [OF assms(1)] .
  have rr: "\<And>s' r bx. rebuild_rank X s' (a\<lparr>a_box := bx\<rparr>) r = rebuild_rank X s' a r"
    by (simp add: rebuild_rank_def)
  show ?thesis
    using assms(2) bc by (simp add: setup_atoms_def setup_box_def with_box_def rr Let_def)
qed

lemma setup_forces_with_box:
  "setup_forces X mid (with_box b' a) sv = setup_forces X mid a sv"
  by (simp add: setup_forces_def with_box_def)

lemma setup_msg_with_box:
  assumes "\<forall>i\<in>{0, 3, 4, 6, 7, 8}. b' ! i = unpack_BOX m ! i"
  shows "setup_msg X (m\<lparr>unpack_BOX := b'\<rparr>) sv = setup_msg X m sv"
proof (cases "setup_validate X (sim sv) m")
  case (Inl e)
  then show ?thesis
    by (simp add: setup_msg_def setup_validate_with_box [OF assms])
next
  case (Inr a)
  have b: "a_box a = Some (unpack_BOX m)"
    using setup_validate_box [OF Inr] .
  have n: "a_natoms (with_box b' a) = a_natoms a"
    by (simp add: with_box_def)
  show ?thesis
    using Inr
    by (simp add: setup_msg_def setup_validate_with_box [OF assms]
        setup_atoms_with_box [OF assms b] setup_forces_with_box n Let_def)
qed

lemma step_fields_with_box:
  "step_fields (m\<lparr>unpack_BOX := b'\<rparr>) fids (with_box_step b' b) =
     map_sum (\<lambda>e. e) (with_box_step b') (step_fields m fids b)"
proof (induction fids arbitrary: b)
  case Nil
  then show ?case by simp
next
  case (Cons fid fids)
  have 1: "step_field (m\<lparr>unpack_BOX := b'\<rparr>) fid (with_box_step b' b) =
             map_sum (\<lambda>e. e) (with_box_step b') (step_field m fid b)"
    by (simp add: step_field_def with_box_step_def field_ids)
  show ?case
    by (cases "step_field m fid b") (simp_all add: 1 Cons.IH)
qed

lemma step_msg_with_box:
  assumes "\<forall>i\<in>{0, 3, 4, 6, 7, 8}. b' ! i = unpack_BOX m ! i"
  shows "step_msg X (m\<lparr>unpack_BOX := b'\<rparr>) sv = step_msg X m sv"
proof -
  have 0: "with_box_step b' step_args0 = step_args0"
    by (simp add: with_box_step_def step_args0_def)
  have f: "step_fields (m\<lparr>unpack_BOX := b'\<rparr>) (fieldID m) step_args0 =
             map_sum (\<lambda>e. e) (with_box_step b') (step_fields m (fieldID m) step_args0)"
    using step_fields_with_box [where b = step_args0 and b' = b'] by (simp add: 0)
  show ?thesis
  proof (cases "step_fields m (fieldID m) step_args0")
    case (Inl e)
    then show ?thesis using f by (simp add: step_msg_def step_validate_def)
  next
    case (Inr b)
    have bb: "b_box b = None \<or> b_box b = Some (unpack_BOX m)"
      using step_fields_Inr [OF Inr] by (simp add: step_args0_def)
    have t: "tilted b' = tilted (unpack_BOX m)"
      using tilted_cong [OF assms] .
    have bc: "\<And>origin d. box_change origin b' d = box_change origin (unpack_BOX m) d"
      using box_change_cong [OF assms] .
    from bb show ?thesis
    proof
      assume "b_box b = None"
      then have "with_box_step b' b = b"
        by (simp add: with_box_step_def)
      then show ?thesis using f Inr by (simp add: step_msg_def step_validate_def)
    next
      assume some: "b_box b = Some (unpack_BOX m)"
      show ?thesis using f Inr some t bc
        by (simp add: step_msg_def step_validate_def with_box_step_def step_box_def
            step_coords_def Let_def)
    qed
  qed
qed

text \<open>
  Claim C10. A SETUP or STEP message is handled alike for any two box tensors that agree
  at the indices 0, 3, 4, 6, 7 and 8: the outcome (the error or the reply, and the whole
  state, box geometry included) is the same. The entries 1, 2 and 5 are never read.
\<close>

theorem box_entries_1_2_5_unused:
  assumes "\<forall>i\<in>{0, 3, 4, 6, 7, 8}. b' ! i = unpack_BOX m ! i"
  shows "handle_msg X (m\<lparr>unpack_BOX := b'\<rparr>) sv = handle_msg X m sv"
proof -
  have "setup_msg X (m\<lparr>unpack_BOX := b'\<rparr>) sv = setup_msg X m sv"
    by (rule setup_msg_with_box [OF assms])
  moreover have "step_msg X (m\<lparr>unpack_BOX := b'\<rparr>) sv = step_msg X m sv"
    by (rule step_msg_with_box [OF assms])
  ultimately show ?thesis
    by (simp add: handle_msg_def)
qed

theorem box_entries_1_2_5_unused_witness:
  "unpack_BOX msg_setup = [10, 0, 0, 0, 10, 0, 0, 0, 10] \<and>
   handle_msg ext0 (msg_setup\<lparr>unpack_BOX := [10, 7, 8, 0, 10, 9, 0, 0, 10]\<rparr>) (server0 sim0) =
     handle_msg ext0 msg_setup (server0 sim0)"
proof -
  have u: "unpack_BOX msg_setup = [10, 0, 0, 0, 10, 0, 0, 0, 10]"
    by (simp add: msg_setup_def)
  have h: "\<forall>i\<in>{0, 3, 4, 6, 7, 8}. [10, 7, 8, 0, 10, 9, 0, 0, 10] ! i = unpack_BOX msg_setup ! i"
    by (simp add: u)
  show ?thesis
    using box_entries_1_2_5_unused [OF h, of ext0 "server0 sim0"] u by simp
qed


subsection \<open>Replies\<close>

lemma send_fev_sent:
  "\<exists>r. sent (send_fev mid sv) = sent sv @ [r] \<and> reply_msgID r = mid \<and> reply_nfield r = 3"
  by (simp add: send_fev_def Let_def)

lemma send_fev_counters:
  "forcecalls (send_fev mid sv) = forcecalls sv \<and> neighcalls (send_fev mid sv) = neighcalls sv"
  by (simp add: send_fev_def Let_def)

lemma setup_forces_sent:
  "\<exists>r. sent (setup_forces X mid a sv) = sent sv @ [r] \<and> reply_msgID r = mid \<and>
       reply_nfield r = 3"
proof -
  obtain sv' where 1: "setup_forces X mid a sv = send_fev mid sv'" and 2: "sent sv' = sent sv"
    by (simp add: setup_forces_def Let_def)
  show ?thesis
    using send_fev_sent [of mid sv'] by (simp add: 1 2)
qed

lemma step_forces_sent:
  "\<exists>r. sent (step_forces X mid sv) = sent sv @ [r] \<and> reply_msgID r = mid \<and>
       reply_nfield r = 3"
proof -
  obtain sv' where 1: "step_forces X mid sv = send_fev mid sv'" and 2: "sent sv' = sent sv"
    by (simp add: step_forces_def Let_def)
  show ?thesis
    using send_fev_sent [of mid sv'] by (simp add: 1 2)
qed

lemma step_forces_forcecalls:
  "forcecalls (step_forces X mid sv) = forcecalls sv + 1"
  by (simp add: step_forces_def Let_def send_fev_counters)

lemma handle_msg_Ok_sent:
  assumes "handle_msg X m sv = Ok sv'"
  shows "\<exists>r. sent sv' = sent sv @ [r] \<and> reply_msgID r = msgID m \<and> reply_nfield r = 3"
proof (cases "msgID m = SETUP")
  case True
  then have "setup_msg X m sv = Ok sv'"
    using assms by (simp add: handle_msg_def)
  then obtain a sv2 where "sv' = setup_forces X (msgID m) a sv2" and "sent sv2 = sent sv"
    by (auto simp: setup_msg_def Let_def split: sum.splits if_splits)
  then show ?thesis
    using setup_forces_sent [of X "msgID m" a sv2] by simp
next
  case False
  then have "step_msg X m sv = Ok sv'"
    using assms by (simp add: handle_msg_def split: if_splits)
  then obtain sv2 where "sv' = step_forces X (msgID m) sv2" and "sent sv2 = sent sv"
    by (auto simp: step_msg_def Let_def split: sum.splits)
  then show ?thesis
    using step_forces_sent [of X "msgID m" sv2] by simp
qed

subsection \<open>A STEP message before any SETUP message\<close>

lemma step_validate_Inr:
  assumes "set (fieldID m) \<subseteq> {COORDS, ORIGIN, BOX}" and "COORDS \<in> set (fieldID m)"
    and "\<not> (ORIGIN \<in> set (fieldID m) \<and> BOX \<in> set (fieldID m) \<and>
             tilted (unpack_BOX m) \<and> triclinic (domain s) = 0)"
  shows "\<exists>b. step_validate s m = Inr b"
proof -
  obtain b where f: "step_fields m (fieldID m) step_args0 = Inr b"
    using step_fields_known [OF assms(1)] by blast
  have c: "b_coords b = Some (unpack_COORDS m)"
    and o: "b_origin b = (if ORIGIN \<in> set (fieldID m) then Some (unpack_ORIGIN m) else None)"
    and bx: "b_box b = (if BOX \<in> set (fieldID m) then Some (unpack_BOX m) else None)"
    using step_fields_Inr [OF f] assms(2) by (simp_all add: step_args0_def)
  show ?thesis
    using assms(3) by (auto simp: step_validate_def f c o bx)
qed

text \<open>
  Claim C1, as amended. The loop keeps no record of the messages it has handled, so a STEP
  message is handled alike in every state, the first state of a session included. When it
  carries COORDS, no field other than COORDS, ORIGIN and BOX, and no tilted box with an
  origin for a server that is not triclinic, the forces are evaluated once, one STEP reply
  of three fields is sent, and the loop goes on to the next message.
\<close>

theorem step_needs_no_setup:
  assumes "msgID m = STEP"
    and "set (fieldID m) \<subseteq> {COORDS, ORIGIN, BOX}" and "COORDS \<in> set (fieldID m)"
    and "\<not> (ORIGIN \<in> set (fieldID m) \<and> BOX \<in> set (fieldID m) \<and>
             tilted (unpack_BOX m) \<and> triclinic (domain (sim sv)) = 0)"
  shows "\<exists>sv' r. handle_msg X m sv = Ok sv' \<and> loop X sv (m # ms) = loop X sv' ms \<and>
           forcecalls sv' = forcecalls sv + 1 \<and>
           sent sv' = sent sv @ [r] \<and> reply_msgID r = STEP \<and> reply_nfield r = 3"
proof -
  obtain b where v: "step_validate (sim sv) m = Inr b"
    using step_validate_Inr [OF assms(2,3,4)] by blast
  define sv2 where "sv2 = sv\<lparr>sim := step_coords X b (step_box X b (sim sv))\<rparr>"
  define sv' where "sv' = step_forces X (msgID m) sv2"
  have h: "handle_msg X m sv = Ok sv'"
    using assms(1) v by (simp add: handle_msg_def step_msg_def SETUP_def STEP_def sv'_def sv2_def)
  have l: "loop X sv (m # ms) = loop X sv' ms"
    using assms(1) h by (simp add: STEP_def)
  have fc: "forcecalls sv' = forcecalls sv + 1"
    by (simp add: sv'_def sv2_def step_forces_forcecalls)
  obtain r where "sent sv' = sent sv @ [r]" and "reply_msgID r = STEP" and "reply_nfield r = 3"
    using handle_msg_Ok_sent [OF h] assms(1) by auto
  with h l fc show ?thesis by blast
qed

theorem step_needs_no_setup_witness:
  "msgID msg_step = STEP \<and> COORDS \<in> set (fieldID msg_step) \<and>
   (\<exists>sv' r. handle_msg ext0 msg_step (server0 sim0) = Ok sv' \<and>
      loop ext0 (server0 sim0) [msg_step, msg_end] = loop ext0 sv' [msg_end] \<and>
      forcecalls sv' = 1 \<and> sent sv' = [r] \<and> reply_msgID r = STEP \<and> reply_nfield r = 3)"
proof -
  have 1: "msgID msg_step = STEP"
    and 2: "set (fieldID msg_step) \<subseteq> {COORDS, ORIGIN, BOX}"
    and 3: "COORDS \<in> set (fieldID msg_step)"
    and 4: "\<not> (ORIGIN \<in> set (fieldID msg_step) \<and> BOX \<in> set (fieldID msg_step) \<and>
               tilted (unpack_BOX msg_step) \<and> triclinic (domain (sim (server0 sim0))) = 0)"
    by (simp_all add: msg_step_def STEP_def field_ids)
  have 5: "forcecalls (server0 sim0) = 0" and 6: "sent (server0 sim0) = []"
    by (simp_all add: server0_def)
  show ?thesis
    using step_needs_no_setup [OF 1 2 3 4, of ext0 "[msg_end]"] 1 3 by (simp add: 5 6)
qed

text \<open>
  Claim C1 as stated fails: a session whose first and only message is a STEP message is
  not aborted. The forces are evaluated once and the STEP reply is sent, before the
  closing reply.
\<close>

theorem step_before_setup_answered:
  "\<exists>sv. loop ext0 (server0 sim0) [msg_step] = Finished sv [] \<and> forcecalls sv = 1 \<and>
        map reply_msgID (sent sv) = [STEP, 0] \<and> map reply_nfield (sent sv) = [3, 0]"
  by (simp add: demo_defs handler_defs final_reply_def closing_reply_def)

subsection \<open>The end of the session\<close>

lemma loop_end_of_session:
  assumes "\<forall>m\<in>set ms. 0 \<le> msgID m" and "msgID t < 0"
    and "loop X sv ms = Finished sv1 []"
  shows "loop X sv (ms @ t # rest) = Finished sv1 rest"
  using assms
proof (induction ms arbitrary: sv)
  case Nil
  then show ?case by simp
next
  case (Cons m ms)
  then have nonneg: "\<not> msgID m < 0" and rest: "\<forall>m\<in>set ms. 0 \<le> msgID m"
    by auto
  show ?case
  proof (cases "handle_msg X m sv")
    case (Fatal e sv')
    then show ?thesis using Cons.prems(3) nonneg by simp
  next
    case (Ok sv')
    then have "loop X sv' ms = Finished sv1 []"
      using Cons.prems(3) nonneg by simp
    then have "loop X sv' (ms @ t # rest) = Finished sv1 rest"
      using Cons.IH [OF rest Cons.prems(2)] by blast
    then show ?thesis using Ok nonneg by simp
  qed
qed

lemma loop_replies:
  assumes "\<forall>m\<in>set ms. 0 \<le> msgID m" and "loop X sv ms = Finished sv1 []"
  shows "\<exists>rs. sent sv1 = sent sv @ rs @ [closing_reply] \<and> length rs = length ms \<and>
              (\<forall>r\<in>set rs. reply_nfield r = 3)"
  using assms
proof (induction ms arbitrary: sv)
  case Nil
  then show ?case by (auto simp: final_reply_def)
next
  case (Cons m ms)
  then have nonneg: "\<not> msgID m < 0" and rest: "\<forall>m\<in>set ms. 0 \<le> msgID m"
    by auto
  show ?case
  proof (cases "handle_msg X m sv")
    case (Fatal e sv')
    then show ?thesis using Cons.prems(2) nonneg by simp
  next
    case (Ok sv')
    then have "loop X sv' ms = Finished sv1 []"
      using Cons.prems(2) nonneg by simp
    then obtain rs where rs: "sent sv1 = sent sv' @ rs @ [closing_reply]"
      "length rs = length ms" "\<forall>r\<in>set rs. reply_nfield r = 3"
      using Cons.IH [OF rest] by blast
    obtain r where r: "sent sv' = sent sv @ [r]" "reply_nfield r = 3"
      using handle_msg_Ok_sent [OF Ok] by blast
    have "sent sv1 = sent sv @ (r # rs) @ [closing_reply]"
      using rs(1) r(1) by simp
    moreover have "length (r # rs) = length (m # ms)"
      using rs(2) by simp
    moreover have "\<forall>r'\<in>set (r # rs). reply_nfield r' = 3"
      using rs(3) r(2) by simp
    ultimately show ?thesis by blast
  qed
qed

text \<open>
  Claim C9. After any number of SETUP and STEP exchanges \<open>ms\<close> (messages whose ID is not
  negative, none of them fatal), the run ends alike when the stream ends and when the
  client's end of session \<open>t\<close> arrives: the loop is left, the replies sent during the
  run are one reply of three fields for every exchange and then the closing reply, the
  only one with no field, and the messages \<open>rest\<close> behind \<open>t\<close> are never received.
\<close>

theorem end_of_session:
  assumes "\<forall>m\<in>set ms. 0 \<le> msgID m" and "loop X sv ms = Finished sv1 []" and "msgID t < 0"
  shows "loop X sv (ms @ t # rest) = Finished sv1 rest \<and>
         (\<exists>rs. sent sv1 = sent sv @ rs @ [closing_reply] \<and> length rs = length ms \<and>
               (\<forall>r\<in>set rs. reply_nfield r = 3)) \<and>
         filter (\<lambda>r. reply_nfield r = 0) (drop (length (sent sv)) (sent sv1)) = [closing_reply]"
proof -
  obtain rs where rs: "sent sv1 = sent sv @ rs @ [closing_reply]"
    "length rs = length ms" "\<forall>r\<in>set rs. reply_nfield r = 3"
    using loop_replies [OF assms(1,2)] by blast
  have "filter (\<lambda>r. reply_nfield r = 0) rs = []"
    using rs(3) by (simp add: filter_empty_conv)
  then have "filter (\<lambda>r. reply_nfield r = 0) (drop (length (sent sv)) (sent sv1)) =
             [closing_reply]"
    using rs(1) by (simp add: closing_reply_def)
  then show ?thesis
    using loop_end_of_session [OF assms(1,3,2)] rs by blast
qed


lemma demo_session:
  "\<exists>sv1. loop ext0 (server0 sim0) [msg_setup, msg_step] = Finished sv1 []"
proof -
  have "case loop ext0 (server0 sim0) [msg_setup, msg_step] of
          Finished sv1 r \<Rightarrow> r = [] | Aborted e sv1 r \<Rightarrow> False"
    by code_simp
  then show ?thesis
    by (cases "loop ext0 (server0 sim0) [msg_setup, msg_step]") simp_all
qed

theorem end_of_session_witness:
  "\<exists>sv1. loop ext0 (server0 sim0) [msg_setup, msg_step] = Finished sv1 [] \<and>
         msgID msg_end < 0 \<and>
         loop ext0 (server0 sim0) ([msg_setup, msg_step] @ msg_end # [msg_step]) =
           Finished sv1 [msg_step] \<and>
         filter (\<lambda>r. reply_nfield r = 0) (sent sv1) = [closing_reply] \<and>
         length (sent sv1) = 3"
proof -
  obtain sv1 where run: "loop ext0 (server0 sim0) [msg_setup, msg_step] = Finished sv1 []"
    using demo_session by blast
  have ids: "\<forall>m\<in>set [msg_setup, msg_step]. 0 \<le> msgID m"
    by (simp add: msg_setup_def msg_step_def)
  have t: "msgID msg_end < 0"
    by (simp add: msg_end_def)
  have s0: "sent (server0 sim0) = []"
    by (simp add: server0_def)
  have "length (sent sv1) = 3 \<and>
        filter (\<lambda>r. reply_nfield r = 0) (sent sv1) = [closing_reply] \<and>
        loop ext0 (server0 sim0) ([msg_setup, msg_step] @ msg_end # [msg_step]) =
           Finished sv1 [msg_step]"
    using end_of_session [OF ids run t, of "[msg_step]"] by (auto simp: s0)
  then show ?thesis
    using run t by blast
qed

subsection \<open>The reply\<close>

lemma local_virial_nth:
  assumes "i < 6"
  shows "local_virial p ! i = virial p ! i + (case kspace p of None \<Rightarrow> 0 | Some kv \<Rightarrow> kv ! i)"
  using assms by (cases "kspace p") (simp_all add: local_virial_def)

lemma MPI_Allreduce_SUM_replicate:
  "MPI_Allreduce_SUM count bufs =
     replicate (length bufs) (map (\<lambda>i. \<Sum>buf\<leftarrow>bufs. buf ! i) [0..<count])"
  by (simp add: MPI_Allreduce_SUM_def map_replicate_const)

text \<open>
  Claim C3. The reply that \<^verbatim>\<open>send_fev\<close> sends after a force evaluation holds, on every
  process of the group, the same reduced values: as ENERGY the sum over all processes of
  the local energy \<^verbatim>\<open>eng_vdwl + eng_coul\<close>, and as VIRIAL, for each of the six
  components, the sum over all processes of the pair virial, plus the virial of the
  long-range solver on the processes where one is configured.
\<close>

theorem send_fev_reduces:
  "\<exists>r. sent (send_fev mid sv) = sent sv @ [r] \<and> reply_msgID r = mid \<and> reply_nfield r = 3 \<and>
       reply_ENERGY r =
         replicate (length (world (sim sv))) (\<Sum>p\<leftarrow>world (sim sv). eng_vdwl p + eng_coul p) \<and>
       reply_VIRIAL r =
         replicate (length (world (sim sv)))
           (map (\<lambda>i. \<Sum>p\<leftarrow>world (sim sv).
                        virial p ! i + (case kspace p of None \<Rightarrow> 0 | Some kv \<Rightarrow> kv ! i))
              [0..<6])"
proof -
  let ?ps = "world (sim sv)"
  have e: "map (\<lambda>buf. buf ! 0) (MPI_Allreduce_SUM 1 (map (\<lambda>p. [local_eng p]) ?ps)) =
           replicate (length ?ps) (\<Sum>p\<leftarrow>?ps. eng_vdwl p + eng_coul p)"
    by (simp add: MPI_Allreduce_SUM_replicate local_eng_def comp_def)
  have "map (\<lambda>i. \<Sum>buf\<leftarrow>map local_virial ?ps. buf ! i) [0..<6] =
        map (\<lambda>i. \<Sum>p\<leftarrow>?ps. virial p ! i + (case kspace p of None \<Rightarrow> 0 | Some kv \<Rightarrow> kv ! i))
          [0..<6]"
  proof (rule map_cong [OF refl])
    fix i :: nat
    assume "i \<in> set [0..<6]"
    then have "i < 6" by simp
    then show "(\<Sum>buf\<leftarrow>map local_virial ?ps. buf ! i) =
               (\<Sum>p\<leftarrow>?ps. virial p ! i + (case kspace p of None \<Rightarrow> 0 | Some kv \<Rightarrow> kv ! i))"
      by (simp add: comp_def local_virial_nth)
  qed
  then have v: "MPI_Allreduce_SUM 6 (map local_virial ?ps) =
        replicate (length ?ps)
          (map (\<lambda>i. \<Sum>p\<leftarrow>?ps. virial p ! i + (case kspace p of None \<Rightarrow> 0 | Some kv \<Rightarrow> kv ! i))
             [0..<6])"
    by (simp add: MPI_Allreduce_SUM_replicate)
  show ?thesis
    unfolding send_fev_def Let_def using e v by simp
qed

theorem send_fev_reduces_witness:
  "map reply_ENERGY (sent (send_fev 2 (server0 (sim0\<lparr>world :=
        [rank0\<lparr>eng_vdwl := 1, eng_coul := 0.5, virial := [1, 2, 3, 4, 5, 6],
               kspace := Some [1, 1, 1, 1, 1, 1]\<rparr>,
         rank0\<lparr>eng_vdwl := 2, virial := [10, 20, 30, 40, 50, 60]\<rparr>]\<rparr>)))) = [[3.5, 3.5]] \<and>
   map reply_VIRIAL (sent (send_fev 2 (server0 (sim0\<lparr>world :=
        [rank0\<lparr>eng_vdwl := 1, eng_coul := 0.5, virial := [1, 2, 3, 4, 5, 6],
               kspace := Some [1, 1, 1, 1, 1, 1]\<rparr>,
         rank0\<lparr>eng_vdwl := 2, virial := [10, 20, 30, 40, 50, 60]\<rparr>]\<rparr>)))) =
     [[[12, 23, 34, 45, 56, 67], [12, 23, 34, 45, 56, 67]]]"
proof -
  let ?sv = "server0 (sim0\<lparr>world :=
        [rank0\<lparr>eng_vdwl := 1, eng_coul := 0.5, virial := [1, 2, 3, 4, 5, 6],
               kspace := Some [1, 1, 1, 1, 1, 1]\<rparr>,
         rank0\<lparr>eng_vdwl := 2, virial := [10, 20, 30, 40, 50, 60]\<rparr>]\<rparr>)"
  have six: "[0..<6] = [0, 1, 2, 3, 4, 5]"
    by (simp add: upt_rec)
  obtain r where r: "sent (send_fev 2 ?sv) = sent ?sv @ [r]"
    and e: "reply_ENERGY r =
         replicate (length (world (sim ?sv))) (\<Sum>p\<leftarrow>world (sim ?sv). eng_vdwl p + eng_coul p)"
    and v: "reply_VIRIAL r =
         replicate (length (world (sim ?sv)))
           (map (\<lambda>i. \<Sum>p\<leftarrow>world (sim ?sv).
                        virial p ! i + (case kspace p of None \<Rightarrow> 0 | Some kv \<Rightarrow> kv ! i))
              [0..<6])"
    using send_fev_reduces [of 2 ?sv] by blast
  have s: "sent ?sv = []"
    by (simp add: server0_def)
  have "reply_ENERGY r = [3.5, 3.5]"
    unfolding e by (simp add: server0_def sim0_def rank0_def)
  moreover have "reply_VIRIAL r = [[12, 23, 34, 45, 56, 67], [12, 23, 34, 45, 56, 67]]"
    unfolding v six by (simp add: server0_def sim0_def rank0_def)
  ultimately show ?thesis
    using r s by simp
qed

subsection \<open>The coordinates of a STEP message\<close>

text \<open>Three times a count of at most \<open>INT_MAX / 3\<close> is the same in 32 bits.\<close>

lemma sint_three_times:
  assumes "n \<le> 715827882"
  shows "sint (3 * of_nat n :: 32 word) = 3 * int n"
proof -
  have w: "(3 * of_nat n :: 32 word) = word_of_int (3 * int n)"
    by simp
  have "sint (word_of_int (3 * int n) :: 32 word) =
          (3 * int n + 2147483648) mod 4294967296 - 2147483648"
    using int_word_sint [of "3 * int n", where 'a = 32] by simp
  also have "\<dots> = 3 * int n"
    using assms by simp
  finally show ?thesis
    by (simp only: w)
qed


lemma remap_atom_unfold:
  "remap_atom ci coords aid (p, j) =
     (if owned p aid
      then (p\<lparr>atom_x := (atom_x p)(nat (atom_map p aid) :=
                ci (atom_x p (nat (atom_map p aid))) (coords_at coords j))\<rparr>, j + 3)
      else (p, j + 3))"
  by (auto simp: remap_atom_def owned_def Let_def)

lemma remap_atom_pair: "\<exists>p1. remap_atom ci coords aid (p, j) = (p1, j + 3)"
  by (simp add: remap_atom_unfold)

lemma remap_atom_keeps:
  "atom_map (fst (remap_atom ci coords aid (p, j))) = atom_map p \<and>
   nlocal (fst (remap_atom ci coords aid (p, j))) = nlocal p"
  by (simp add: remap_atom_unfold)

lemma owned_remap_atom:
  "owned (fst (remap_atom ci coords aid (p, j))) b = owned p b"
  by (simp add: owned_def remap_atom_keeps)

lemma remap_atoms_cursor:
  "snd (remap_atoms ci coords ids (p, j)) = j + 3 * of_nat (length ids)"
proof (induction ids arbitrary: p j)
  case Nil
  then show ?case by simp
next
  case (Cons aid ids)
  obtain p1 where 1: "remap_atom ci coords aid (p, j) = (p1, j + 3)"
    using remap_atom_pair by blast
  show ?case
    using Cons.IH [of p1 "j + 3"] by (simp add: 1 algebra_simps)
qed

lemma remap_atoms_untouched:
  assumes "\<forall>aid\<in>set ids. owned p aid \<longrightarrow> nat (atom_map p aid) \<noteq> i"
  shows "atom_x (fst (remap_atoms ci coords ids (p, j))) i = atom_x p i"
  using assms
proof (induction ids arbitrary: p j)
  case Nil
  then show ?case by simp
next
  case (Cons aid ids)
  obtain p1 where 1: "remap_atom ci coords aid (p, j) = (p1, j + 3)"
    using remap_atom_pair by blast
  then have p1: "p1 = fst (remap_atom ci coords aid (p, j))" by simp
  have x: "atom_x p1 i = atom_x p i"
    using Cons.prems 1 by (auto simp: remap_atom_unfold split: if_splits)
  have "\<forall>b\<in>set ids. owned p1 b \<longrightarrow> nat (atom_map p1 b) \<noteq> i"
    using Cons.prems by (simp add: p1 owned_remap_atom remap_atom_keeps)
  then have "atom_x (fst (remap_atoms ci coords ids (p1, j + 3))) i = atom_x p1 i"
    by (rule Cons.IH)
  then show ?case by (simp add: 1 x)
qed

lemma remap_atoms_position:
  assumes "distinct ids" and "inj_on (atom_map p) {aid \<in> set ids. owned p aid}"
    and "k < length ids" and "owned p (ids ! k)"
  shows "atom_x (fst (remap_atoms ci coords ids (p, j))) (nat (atom_map p (ids ! k))) =
           ci (atom_x p (nat (atom_map p (ids ! k)))) (coords_at coords (j + 3 * of_nat k))"
  using assms
proof (induction ids arbitrary: p j k)
  case Nil
  then show ?case by simp
next
  case (Cons aid ids)
  obtain p1 where 1: "remap_atom ci coords aid (p, j) = (p1, j + 3)"
    using remap_atom_pair by blast
  then have p1: "p1 = fst (remap_atom ci coords aid (p, j))" by simp
  have keep: "atom_map p1 = atom_map p" "\<And>b. owned p1 b = owned p b"
    by (simp_all add: p1 remap_atom_keeps owned_remap_atom)
  have apart: "nat (atom_map p a) \<noteq> nat (atom_map p b)"
    if "a \<in> set (aid # ids)" "b \<in> set (aid # ids)" "owned p a" "owned p b" "a \<noteq> b" for a b
  proof -
    have "atom_map p a \<noteq> atom_map p b"
      using Cons.prems(2) that by (auto simp: inj_on_def)
    moreover have "0 \<le> atom_map p a" "0 \<le> atom_map p b"
      using that by (simp_all add: owned_def)
    ultimately show ?thesis by simp
  qed
  show ?case
  proof (cases k)
    case 0
    then have own: "owned p aid" using Cons.prems(4) by simp
    have "\<forall>b\<in>set ids. owned p1 b \<longrightarrow> nat (atom_map p1 b) \<noteq> nat (atom_map p aid)"
    proof (intro ballI impI)
      fix b assume b: "b \<in> set ids" "owned p1 b"
      then have "b \<noteq> aid" using Cons.prems(1) by auto
      then show "nat (atom_map p1 b) \<noteq> nat (atom_map p aid)"
        using apart [of b aid] b own by (simp add: keep)
    qed
    then have "atom_x (fst (remap_atoms ci coords ids (p1, j + 3))) (nat (atom_map p aid)) =
               atom_x p1 (nat (atom_map p aid))"
      by (rule remap_atoms_untouched)
    moreover have "atom_x p1 (nat (atom_map p aid)) =
                   ci (atom_x p (nat (atom_map p aid))) (coords_at coords j)"
      using own 1 by (auto simp: remap_atom_unfold)
    ultimately show ?thesis using 0 by (simp add: 1)
  next
    case (Suc k')
    then have k': "k' < length ids" and own: "owned p (ids ! k')"
      using Cons.prems(3,4) by simp_all
    have mem: "ids ! k' \<in> set ids" using k' by simp
    have inj1: "inj_on (atom_map p1) {b \<in> set ids. owned p1 b}"
      using Cons.prems(2) by (auto simp: keep inj_on_def)
    have d: "distinct ids" using Cons.prems(1) by simp
    have own1: "owned p1 (ids ! k')" using own by (simp add: keep)
    have step: "atom_x (fst (remap_atoms ci coords ids (p1, j + 3))) (nat (atom_map p1 (ids ! k'))) =
          ci (atom_x p1 (nat (atom_map p1 (ids ! k')))) (coords_at coords (j + 3 + 3 * of_nat k'))"
      by (rule Cons.IH [OF d inj1 k' own1])
    have same: "atom_x p1 (nat (atom_map p (ids ! k'))) = atom_x p (nat (atom_map p (ids ! k')))"
    proof (cases "owned p aid")
      case True
      have "ids ! k' \<noteq> aid" using Cons.prems(1) mem by auto
      then have "nat (atom_map p aid) \<noteq> nat (atom_map p (ids ! k'))"
        using apart [of aid "ids ! k'"] True own mem by simp
      then show ?thesis using 1 True by (auto simp: remap_atom_unfold)
    next
      case False
      then show ?thesis using 1 by (auto simp: remap_atom_unfold)
    qed
    have "j + 3 + 3 * of_nat k' = j + 3 * of_nat k"
      using Suc by (simp add: algebra_simps)
    then show ?thesis
      using step same Suc by (simp add: 1 keep add.assoc)
  qed
qed

text \<open>The cursor after the loop, in 32-bit arithmetic.\<close>

lemma remap_rank_cursor_word:
  assumes "0 \<le> sint nall"
  shows "snd (remap_rank ci coords nall p) = 3 * nall"
proof -
  have "(of_nat (nat (sint nall)) :: 32 word) = nall"
    using assms by simp
  then show ?thesis
    by (simp add: remap_rank_def remap_atoms_cursor)
qed

lemma remap_rank_cursor:
  assumes "0 \<le> sint nall" and "3 * sint nall \<le> INT_MAX"
  shows "sint (snd (remap_rank ci coords nall p)) = 3 * sint nall"
proof -
  define n where "n = nat (sint nall)"
  have n: "n \<le> 715827882" and i: "int n = sint nall"
    using assms by (simp_all add: n_def INT_MAX_def)
  have w: "(of_nat n :: 32 word) = nall"
    using assms(1) by (simp add: n_def)
  have "sint (3 * of_nat n :: 32 word) = 3 * int n"
    by (rule sint_three_times [OF n])
  then show ?thesis
    by (simp add: remap_rank_cursor_word [OF assms(1)] w i)
qed

lemma coords_at_slot:
  assumes "k \<le> 715827882"
  shows "coords_at coords (3 * of_nat k) = take 3 (drop (3 * k) coords)"
proof -
  have "nat (3 * int k) = 3 * k" by simp
  then show ?thesis
    by (simp add: coords_at_def sint_three_times [OF assms])
qed

lemma remap_rank_position:
  assumes "3 * sint nall \<le> INT_MAX"
    and "inj_on (atom_map p) {a \<in> {1..sint nall}. owned p a}"
    and "a \<in> {1..sint nall}" and "owned p a"
  shows "atom_x (fst (remap_rank ci coords nall p)) (nat (atom_map p a)) =
           ci (atom_x p (nat (atom_map p a))) (take 3 (drop (3 * nat (a - 1)) coords))"
proof -
  let ?ids = "[1..sint nall]"
  let ?k = "nat (a - 1)"
  have d: "distinct ?ids" by simp
  have inj: "inj_on (atom_map p) {aid \<in> set ?ids. owned p aid}"
    using assms(2) by simp
  have k: "?k < length ?ids"
    using assms(3) by auto
  have nth: "?ids ! ?k = a"
    using assms(3) by (simp add: nth_upto)
  have own: "owned p (?ids ! ?k)"
    using assms(4) nth by simp
  have "3 * a \<le> 3 * sint nall"
    using assms(3) by simp
  then have "a - 1 \<le> 715827882"
    using assms(1) by (simp add: INT_MAX_def)
  then have kb: "?k \<le> 715827882"
    by simp
  have "atom_x (fst (remap_atoms ci coords ?ids (p, 0))) (nat (atom_map p (?ids ! ?k))) =
          ci (atom_x p (nat (atom_map p (?ids ! ?k)))) (coords_at coords (0 + 3 * of_nat ?k))"
    by (rule remap_atoms_position [OF d inj k own])
  then show ?thesis
    by (simp add: remap_rank_def nth coords_at_slot [OF kb])
qed

text \<open>
  The NATOMS field of a SETUP message is taken as it is, whatever its value: the test for
  the maximum never holds.
\<close>

lemma natoms_field_accepted:
  "setup_field X s m NATOMS a = Inr (a\<lparr>a_natoms := unpack_NATOMS m\<rparr>)"
  by (simp add: setup_field_def max_atoms_test_never_holds field_ids)

text \<open>
  Claim C8, as amended. In the loop over the atom IDs from 1 to \<open>nall\<close>, every ID moves the
  32-bit cursor by 3, owned or not: an ID that is not owned leaves the process as it is,
  an owned one has its position replaced by the closest image of the three coordinates at
  the cursor. When \<open>3 * nall\<close> is at most \<open>INT_MAX\<close>, the cursor after the loop is
  \<open>3 * nall\<close>, and, when the map sends different owned IDs to different local atoms, the
  position of the owned atom \<open>a\<close> after the loop is the closest image, to its position
  before, of the coordinates at \<open>3 * (a - 1)\<close>.
\<close>

theorem remap_consumes_three_per_id:
  "snd (remap_atom ci coords aid (p, j)) = j + 3 \<and>
   (\<not> owned p aid \<longrightarrow> fst (remap_atom ci coords aid (p, j)) = p) \<and>
   (owned p aid \<longrightarrow>
      fst (remap_atom ci coords aid (p, j)) =
        p\<lparr>atom_x := (atom_x p)(nat (atom_map p aid) :=
             ci (atom_x p (nat (atom_map p aid))) (coords_at coords j))\<rparr>) \<and>
   (0 \<le> sint nall \<and> 3 * sint nall \<le> INT_MAX \<longrightarrow>
      sint (snd (remap_rank ci coords nall p)) = 3 * sint nall \<and>
      (inj_on (atom_map p) {a \<in> {1..sint nall}. owned p a} \<longrightarrow>
         (\<forall>a\<in>{1..sint nall}. owned p a \<longrightarrow>
            atom_x (fst (remap_rank ci coords nall p)) (nat (atom_map p a)) =
              ci (atom_x p (nat (atom_map p a))) (take 3 (drop (3 * nat (a - 1)) coords)))))"
proof (intro conjI impI ballI)
  show "snd (remap_atom ci coords aid (p, j)) = j + 3"
    by (simp add: remap_atom_unfold)
  show "fst (remap_atom ci coords aid (p, j)) = p" if "\<not> owned p aid"
    using that by (simp add: remap_atom_unfold)
  show "fst (remap_atom ci coords aid (p, j)) =
          p\<lparr>atom_x := (atom_x p)(nat (atom_map p aid) :=
               ci (atom_x p (nat (atom_map p aid))) (coords_at coords j))\<rparr>"
    if "owned p aid"
    using that by (simp add: remap_atom_unfold)
  show "sint (snd (remap_rank ci coords nall p)) = 3 * sint nall"
    if "0 \<le> sint nall \<and> 3 * sint nall \<le> INT_MAX"
    using that by (simp add: remap_rank_cursor)
  show "atom_x (fst (remap_rank ci coords nall p)) (nat (atom_map p a)) =
          ci (atom_x p (nat (atom_map p a))) (take 3 (drop (3 * nat (a - 1)) coords))"
    if "0 \<le> sint nall \<and> 3 * sint nall \<le> INT_MAX"
      "inj_on (atom_map p) {a \<in> {1..sint nall}. owned p a}" "a \<in> {1..sint nall}" "owned p a"
    for a
    using that by (simp add: remap_rank_position)
qed

theorem remap_consumes_three_per_id_witness:
  "owned rank_two 2 \<and> \<not> owned rank_two 1 \<and>
   fst (remap_atom (\<lambda>xi xj. xj) [2, 2, 2, 7, 7, 7] 1 (rank_two, 0)) = rank_two \<and>
   sint (snd (remap_rank (\<lambda>xi xj. xj) [2, 2, 2, 7, 7, 7] 2 rank_two)) = 6 \<and>
   atom_x (fst (remap_rank (\<lambda>xi xj. xj) [2, 2, 2, 7, 7, 7] 2 rank_two)) 0 = [7, 7, 7]"
proof -
  have o2: "owned rank_two 2" and o1: "\<not> owned rank_two 1"
    by (simp_all add: owned_def rank_two_def rank0_def)
  have m: "atom_map rank_two 2 = 0"
    by (simp add: rank_two_def rank0_def)
  have b: "0 \<le> sint (2 :: 32 word) \<and> 3 * sint (2 :: 32 word) \<le> INT_MAX"
    by (simp add: INT_MAX_def)
  have inj: "inj_on (atom_map rank_two) {a \<in> {1..sint (2 :: 32 word)}. owned rank_two a}"
    by (auto simp: inj_on_def owned_def rank_two_def rank0_def split: if_splits)
  have mem: "(2::int) \<in> {1..sint (2 :: 32 word)}" by simp
  show ?thesis
    using remap_consumes_three_per_id
      [of "\<lambda>xi xj. xj" "[2, 2, 2, 7, 7, 7]" 1 rank_two 0 2] o1 o2 b inj mem
    by (auto simp: m)
qed

text \<open>
  Claim C8 as stated fails beyond that bound: for 715827883 atoms, one more than
  \<open>INT_MAX / 3\<close>, the \<^verbatim>\<open>int\<close> cursor has overflowed when the loop ends, and in
  wrap-around arithmetic it is \<open>- 2147483647\<close>, not \<open>3 * 715827883 = 2147483649\<close>.
\<close>

theorem cursor_wraps_beyond_int_max:
  "sint (715827883 :: 32 word) = 715827883 \<and> 3 * sint (715827883 :: 32 word) = INT_MAX + 2 \<and>
   sint (snd (remap_rank (\<lambda>xi xj. xj) [] 715827883 rank0)) = - 2147483647 \<and>
   sint (snd (remap_rank (\<lambda>xi xj. xj) [] 715827883 rank0)) \<noteq> 3 * sint (715827883 :: 32 word)"
proof -
  have n: "sint (715827883 :: 32 word) = 715827883"
    by simp
  have "snd (remap_rank (\<lambda>xi xj. xj) [] 715827883 rank0) = (3 * 715827883 :: 32 word)"
    by (rule remap_rank_cursor_word) simp
  then have c: "sint (snd (remap_rank (\<lambda>xi xj. xj) [] 715827883 rank0)) = - 2147483647"
    by simp
  show ?thesis
    unfolding c by (simp add: INT_MAX_def)
qed

subsection \<open>The atom count check of a SETUP message\<close>

lemma add_atoms_tags:
  assumes "nlocal p = n" and "add_atoms own types coords charge is (p, n) = (p', n')"
  shows "nlocal p' = n' \<and>
         n' = n + length (filter (\<lambda>i. own (int i + 1) (take 3 (drop (3 * i) coords))) is) \<and>
         map (tag p') [n..<n'] =
           map (\<lambda>i. int i + 1) (filter (\<lambda>i. own (int i + 1) (take 3 (drop (3 * i) coords))) is) \<and>
         (\<forall>k<n. tag p' k = tag p k)"
  using assms
proof (induction "is" arbitrary: p n)
  case Nil
  then show ?case by simp
next
  case (Cons i "is")
  let ?Q = "\<lambda>i. own (int i + 1) (take 3 (drop (3 * i) coords))"
  show ?case
  proof (cases "?Q i")
    case False
    then have run: "add_atoms own types coords charge is (p, n) = (p', n')"
      using Cons.prems(2) by simp
    have f: "filter ?Q (i # is) = filter ?Q is"
      using False by simp
    show ?thesis
      unfolding f by (rule Cons.IH [OF Cons.prems(1) run])
  next
    case True
    define p1 where "p1 = create_atom (types ! i) (take 3 (drop (3 * i) coords)) p"
    define p2 where "p2 = p1\<lparr>tag := (tag p1)(n := int i + 1)\<rparr>"
    define p3 where
      "p3 = (case charge of None \<Rightarrow> p2 | Some c \<Rightarrow> p2\<lparr>atom_q := (atom_q p2)(n := c ! i)\<rparr>)"
    have run: "add_atoms own types coords charge is (p3, n + 1) = (p', n')"
      using Cons.prems(2) True unfolding p3_def p2_def p1_def by (simp add: Let_def)
    have n3: "nlocal p3 = n + 1"
      using Cons.prems(1) unfolding p3_def p2_def p1_def create_atom_def
      by (cases charge) simp_all
    have t3: "tag p3 = (tag p)(n := int i + 1)"
      unfolding p3_def p2_def p1_def create_atom_def
      by (cases charge) simp_all
    have f: "filter ?Q (i # is) = i # filter ?Q is"
      using True by simp
    have ih: "nlocal p' = n' \<and> n' = n + 1 + length (filter ?Q is) \<and>
              map (tag p') [n + 1..<n'] = map (\<lambda>i. int i + 1) (filter ?Q is) \<and>
              (\<forall>k<n + 1. tag p' k = tag p3 k)"
      by (rule Cons.IH [OF n3 run])
    from ih have a: "nlocal p' = n'" by blast
    from ih have b: "n' = n + length (i # filter ?Q is)" by simp
    from ih have tl: "map (tag p') [n + 1..<n'] = map (\<lambda>i. int i + 1) (filter ?Q is)" by blast
    from ih have low: "\<forall>k<n + 1. tag p' k = tag p3 k" by blast
    have lt: "n < n'" using b by simp
    have tn: "tag p' n = int i + 1"
      using low by (simp add: t3)
    have "[n..<n'] = n # [n + 1..<n']"
      using lt by (simp add: upt_conv_Cons)
    then have c: "map (tag p') [n..<n'] = map (\<lambda>i. int i + 1) (i # filter ?Q is)"
      using tl tn by simp
    have d: "\<forall>k<n. tag p' k = tag p k"
    proof (intro allI impI)
      fix k assume "k < n"
      then show "tag p' k = tag p k" using low by (simp add: t3)
    qed
    show ?thesis
      unfolding f using a b c d by blast
  qed
qed

lemma rebuild_rank_ids:
  "local_ids (rebuild_rank X s a r) =
     map (\<lambda>i. int i + 1) (filter (owns X s a r) [0..<nat (sint (a_natoms a))])"
proof -
  let ?p0 = "(world s ! r)\<lparr>nlocal := 0, nghost := 0\<rparr>"
  let ?run = "add_atoms (ownatom X s r) (the (a_types a)) (the (a_coords a)) (a_charge a)
       [0..<nat (sint (a_natoms a))] (?p0, 0)"
  obtain p' n' where run: "?run = (p', n')"
    by (cases ?run)
  have 0: "nlocal ?p0 = 0" by simp
  have Q: "owns X s a r = (\<lambda>i. ownatom X s r (int i + 1) (take 3 (drop (3 * i) (the (a_coords a)))))"
    by (simp add: owns_def fun_eq_iff)
  have "nlocal p' = n' \<and>
        n' = 0 + length (filter (owns X s a r) [0..<nat (sint (a_natoms a))]) \<and>
        map (tag p') [0..<n'] =
          map (\<lambda>i. int i + 1) (filter (owns X s a r) [0..<nat (sint (a_natoms a))]) \<and>
        (\<forall>k<0. tag p' k = tag ?p0 k)"
    unfolding Q by (rule add_atoms_tags [OF 0 run])
  then have "map (tag p') [0..<nlocal p'] =
          map (\<lambda>i. int i + 1) (filter (owns X s a r) [0..<nat (sint (a_natoms a))])"
    by blast
  moreover have "rebuild_rank X s a r = p'"
    by (simp add: rebuild_rank_def run)
  ultimately show ?thesis
    by (simp add: local_ids_def)
qed

lemma length_local_ids: "length (local_ids p) = nlocal p"
  by (simp add: local_ids_def)

lemma rebuild_rank_nlocal:
  "nlocal (rebuild_rank X s a r) = length (filter (owns X s a r) [0..<nat (sint (a_natoms a))])"
proof -
  have "nlocal (rebuild_rank X s a r) = length (local_ids (rebuild_rank X s a r))"
    by (simp add: length_local_ids)
  also have "\<dots> = length (filter (owns X s a r) [0..<nat (sint (a_natoms a))])"
    by (simp add: rebuild_rank_ids)
  finally show ?thesis .
qed

lemma sum_list_of_nat:
  "(\<Sum>x\<leftarrow>xs. (of_nat (f x) :: 32 word)) = of_nat (\<Sum>x\<leftarrow>xs. f x)"
  by (induction xs) simp_all

lemma of_nat_sint_nonneg:
  assumes "0 \<le> sint (n :: 32 word)"
  shows "of_nat (nat (sint n)) = n"
  using assms by simp

lemma sint32_bound: "nat (sint (n :: 32 word)) < 2147483648"
  using sint_lt [of n] by simp

lemma word32_of_nat_inj:
  assumes "(of_nat S :: 32 word) = of_nat N" and "S < 4294967296" and "N < 4294967296"
  shows "S = N"
proof -
  have "unat (of_nat S :: 32 word) = S mod 4294967296"
    by (simp add: unat_of_nat)
  moreover have "unat (of_nat N :: 32 word) = N mod 4294967296"
    by (simp add: unat_of_nat)
  ultimately have "S mod 4294967296 = N mod 4294967296"
    using assms(1) by simp
  then show ?thesis
    using assms(2,3) by simp
qed

lemma length_filter_upt_card:
  "length (filter Q [0..<N]) = card {i. i < N \<and> Q i}"
proof -
  have "set (filter Q [0..<N]) = {i. i < N \<and> Q i}" by auto
  moreover have "distinct (filter Q [0..<N])" by simp
  ultimately show ?thesis
    using distinct_card [of "filter Q [0..<N]"] by simp
qed

lemma disjoint_owned_count:
  assumes "\<forall>r<P. \<forall>r'<P. r \<noteq> r' \<longrightarrow> (\<forall>i<N. \<not> (Q r i \<and> Q r' i))"
  shows "(\<Sum>r\<leftarrow>[0..<P]. length (filter (Q r) [0..<N])) =
           card (\<Union>r\<in>{0..<P}. {i. i < N \<and> Q r i})"
proof -
  let ?A = "\<lambda>r. {i. i < N \<and> Q r i}"
  have "(\<Sum>r\<leftarrow>[0..<P]. length (filter (Q r) [0..<N])) = (\<Sum>r\<leftarrow>[0..<P]. card (?A r))"
    by (simp add: length_filter_upt_card)
  also have "\<dots> = (\<Sum>r\<in>{0..<P}. card (?A r))"
    by (simp add: interv_sum_list_conv_sum_set_nat)
  also have "\<dots> = card (\<Union>r\<in>{0..<P}. ?A r)"
  proof (rule card_UN_disjoint [symmetric])
    show "finite {0..<P}" by simp
    show "\<forall>r\<in>{0..<P}. finite (?A r)" by simp
    show "\<forall>r\<in>{0..<P}. \<forall>r'\<in>{0..<P}. r \<noteq> r' \<longrightarrow> ?A r \<inter> ?A r' = {}"
    proof (intro ballI impI)
      fix r r' assume "r \<in> {0..<P}" "r' \<in> {0..<P}" "r \<noteq> r'"
      then have "\<forall>i<N. \<not> (Q r i \<and> Q r' i)"
        using assms by simp
      then show "?A r \<inter> ?A r' = {}" by blast
    qed
  qed
  finally show ?thesis .
qed

lemma distinct_concat_maps:
  assumes "distinct rs" and "\<And>r. r \<in> set rs \<Longrightarrow> distinct (f r)"
    and "\<And>r r'. r \<in> set rs \<Longrightarrow> r' \<in> set rs \<Longrightarrow> r \<noteq> r' \<Longrightarrow> set (f r) \<inter> set (f r') = {}"
  shows "distinct (concat (map f rs))"
  using assms
proof (induction rs)
  case Nil
  then show ?case by simp
next
  case (Cons r rs)
  have 1: "distinct (concat (map f rs))"
  proof (rule Cons.IH)
    show "distinct rs" using Cons.prems(1) by simp
    show "distinct (f r')" if "r' \<in> set rs" for r'
      using that Cons.prems(2) by simp
    show "set (f r1) \<inter> set (f r2) = {}" if "r1 \<in> set rs" "r2 \<in> set rs" "r1 \<noteq> r2" for r1 r2
      using that Cons.prems(3) by simp
  qed
  have 2: "distinct (f r)"
    using Cons.prems(2) by simp
  have 3: "set (f r) \<inter> set (concat (map f rs)) = {}"
  proof -
    have "set (f r) \<inter> set (f r') = {}" if "r' \<in> set rs" for r'
    proof -
      have "r \<noteq> r'" using that Cons.prems(1) by auto
      then show ?thesis using that Cons.prems(3) by simp
    qed
    then show ?thesis by auto
  qed
  show ?case using 1 2 3 by simp
qed

lemma setup_validate_nonneg:
  assumes "setup_validate X s m = Inr a"
  shows "0 \<le> sint (a_natoms a)"
  using assms by (auto simp: setup_validate_def split: sum.splits if_splits)

lemma world_setup_atoms:
  "world (setup_atoms X a s) =
     map (rebuild_rank X (setup_box X a s) a) [0..<length (world (setup_box X a s))]"
  by (simp add: setup_atoms_def Let_def)

lemma count_mismatch_iff:
  "count_mismatch s n \<longleftrightarrow> world s \<noteq> [] \<and> (\<Sum>p\<leftarrow>world s. of_nat (nlocal p)) \<noteq> n"
proof -
  have "list_ex (\<lambda>t. t \<noteq> n) (map (\<lambda>_. v) ps) \<longleftrightarrow> ps \<noteq> [] \<and> v \<noteq> n" for v :: "32 word" and ps :: "rank_state list"
    by (induction ps) auto
  then show ?thesis
    by (simp add: count_mismatch_def ntotal_def MPI_Allreduce_SUM_INT_def comp_def)
qed

lemma ids_image: "(\<lambda>i. int i + 1) ` {0..<N} = {1..int N}"
proof
  show "(\<lambda>i. int i + 1) ` {0..<N} \<subseteq> {1..int N}" by auto
  show "{1..int N} \<subseteq> (\<lambda>i. int i + 1) ` {0..<N}"
  proof
    fix x assume "x \<in> {1..int N}"
    then have "nat (x - 1) \<in> {0..<N}" and "x = int (nat (x - 1)) + 1"
      by auto
    then show "x \<in> (\<lambda>i. int i + 1) ` {0..<N}" by blast
  qed
qed

lemma partition_of_ids:
  fixes X :: "'e ext"
  assumes nonneg: "0 \<le> sint (a_natoms a)"
    and nonempty: "world (setup_atoms X a s) \<noteq> []"
    and count: "\<not> count_mismatch (setup_atoms X a s) (a_natoms a)"
    and apart: "\<forall>r<length (world (setup_box X a s)). \<forall>r'<length (world (setup_box X a s)).
             r \<noteq> r' \<longrightarrow>
             (\<forall>i<nat (sint (a_natoms a)).
                \<not> (owns X (setup_box X a s) a r i \<and> owns X (setup_box X a s) a r' i))"
  shows "distinct (concat (map local_ids (world (setup_atoms X a s)))) \<and>
         set (concat (map local_ids (world (setup_atoms X a s)))) = {1..int (nat (sint (a_natoms a)))}"
proof -
  define s2 where "s2 = setup_box X a s"
  define P where "P = length (world s2)"
  define N where "N = nat (sint (a_natoms a))"
  define Q where "Q = owns X s2 a"
  define U where "U = (\<Union>r\<in>{0..<P}. {i. i < N \<and> Q r i})"
  have w: "world (setup_atoms X a s) = map (rebuild_rank X s2 a) [0..<P]"
    by (simp add: world_setup_atoms s2_def P_def)
  have ids: "local_ids (rebuild_rank X s2 a r) = map (\<lambda>i. int i + 1) (filter (Q r) [0..<N])" for r
    by (simp add: rebuild_rank_ids Q_def N_def)
  have nl: "nlocal (rebuild_rank X s2 a r) = length (filter (Q r) [0..<N])" for r
    by (simp add: rebuild_rank_nlocal Q_def N_def)
  have apart': "\<forall>r<P. \<forall>r'<P. r \<noteq> r' \<longrightarrow> (\<forall>i<N. \<not> (Q r i \<and> Q r' i))"
    using apart by (simp add: s2_def P_def N_def Q_def)
  define S where "S = (\<Sum>r\<leftarrow>[0..<P]. length (filter (Q r) [0..<N]))"
  have SU: "S = card U"
    unfolding S_def U_def by (rule disjoint_owned_count [OF apart'])
  have sub: "U \<subseteq> {0..<N}"
    by (auto simp: U_def)
  have "card U \<le> card {0..<N}"
    by (rule card_mono [OF _ sub]) simp
  then have SN: "S \<le> N"
    by (simp add: SU)
  have "(\<Sum>p\<leftarrow>world (setup_atoms X a s). (of_nat (nlocal p) :: 32 word)) = of_nat S"
    by (simp add: w comp_def nl sum_list_of_nat S_def)
  moreover have "(\<Sum>p\<leftarrow>world (setup_atoms X a s). (of_nat (nlocal p) :: 32 word)) = a_natoms a"
    using count nonempty by (simp add: count_mismatch_iff)
  moreover have "a_natoms a = of_nat N"
    using of_nat_sint_nonneg [OF nonneg] by (simp add: N_def)
  ultimately have eqw: "(of_nat S :: 32 word) = of_nat N"
    by simp
  have Nb: "N < 2147483648"
    unfolding N_def by (rule sint32_bound)
  have "S = N"
  proof (rule word32_of_nat_inj [OF eqw])
    show "S < 4294967296" using SN Nb by simp
    show "N < 4294967296" using Nb by simp
  qed
  then have "card U = card {0..<N}"
    by (simp add: SU)
  then have U: "U = {0..<N}"
    using card_subset_eq [OF _ sub] by simp
  have cat: "concat (map local_ids (world (setup_atoms X a s))) =
             concat (map (\<lambda>r. map (\<lambda>i. int i + 1) (filter (Q r) [0..<N])) [0..<P])"
    by (simp add: w comp_def ids)
  have "set (concat (map (\<lambda>r. map (\<lambda>i. int i + 1) (filter (Q r) [0..<N])) [0..<P])) =
        (\<lambda>i. int i + 1) ` U"
    by (auto simp: U_def)
  then have set_eq: "set (concat (map local_ids (world (setup_atoms X a s)))) = {1..int N}"
    by (simp add: cat U ids_image)
  have "distinct (concat (map (\<lambda>r. map (\<lambda>i. int i + 1) (filter (Q r) [0..<N])) [0..<P]))"
  proof (rule distinct_concat_maps)
    show "distinct [0..<P]" by simp
    show "distinct (map (\<lambda>i. int i + 1) (filter (Q r) [0..<N]))" for r
      by (simp add: distinct_map inj_on_def)
    show "set (map (\<lambda>i. int i + 1) (filter (Q r) [0..<N])) \<inter>
          set (map (\<lambda>i. int i + 1) (filter (Q r') [0..<N])) = {}"
      if "r \<in> set [0..<P]" "r' \<in> set [0..<P]" "r \<noteq> r'" for r r'
    proof -
      have "\<forall>i<N. \<not> (Q r i \<and> Q r' i)"
        using that apart' by simp
      then show ?thesis by auto
    qed
  qed
  then have "distinct (concat (map local_ids (world (setup_atoms X a s))))"
    by (simp add: cat)
  then show ?thesis
    using set_eq by (simp add: N_def)
qed

text \<open>
  Claim C2, as amended. For a SETUP message that passes validation, with the local
  variables \<open>a\<close>: every process rebuilds its local atoms as exactly the atoms its
  ownership test accepts, in the order of the message; the sum of the local atom counts
  over the group, a 32-bit sum, is compared with NATOMS, and every other value is the
  fatal error \<open>Atom_count_mismatch\<close>, while equality lets the message be answered. On
  equality, if no atom is accepted by the ownership tests of two processes, the local
  atom IDs of the group are the IDs from 1 to NATOMS, each once.
\<close>

theorem atom_count_check:
  assumes "setup_validate X (sim sv) m = Inr a"
  shows
    "(count_mismatch (setup_atoms X a (sim sv)) (a_natoms a) \<longrightarrow>
        setup_msg X m sv = Fatal Atom_count_mismatch (sv\<lparr>sim := setup_atoms X a (sim sv)\<rparr>)) \<and>
     (\<not> count_mismatch (setup_atoms X a (sim sv)) (a_natoms a) \<longrightarrow>
        (\<exists>sv'. setup_msg X m sv = Ok sv')) \<and>
     (count_mismatch (setup_atoms X a (sim sv)) (a_natoms a) \<longleftrightarrow>
        world (setup_atoms X a (sim sv)) \<noteq> [] \<and>
        (\<Sum>p\<leftarrow>world (setup_atoms X a (sim sv)). of_nat (nlocal p)) \<noteq> a_natoms a) \<and>
     (\<forall>r<length (world (setup_box X a (sim sv))).
        local_ids (world (setup_atoms X a (sim sv)) ! r) =
          map (\<lambda>i. int i + 1)
            (filter (owns X (setup_box X a (sim sv)) a r) [0..<nat (sint (a_natoms a))])) \<and>
     (world (setup_atoms X a (sim sv)) \<noteq> [] \<and>
      \<not> count_mismatch (setup_atoms X a (sim sv)) (a_natoms a) \<and>
      (\<forall>r<length (world (setup_box X a (sim sv))).
         \<forall>r'<length (world (setup_box X a (sim sv))). r \<noteq> r' \<longrightarrow>
           (\<forall>i<nat (sint (a_natoms a)).
              \<not> (owns X (setup_box X a (sim sv)) a r i \<and>
                 owns X (setup_box X a (sim sv)) a r' i))) \<longrightarrow>
      distinct (concat (map local_ids (world (setup_atoms X a (sim sv))))) \<and>
      set (concat (map local_ids (world (setup_atoms X a (sim sv))))) =
        {1..int (nat (sint (a_natoms a)))})"
proof (intro conjI)
  show "count_mismatch (setup_atoms X a (sim sv)) (a_natoms a) \<longrightarrow>
        setup_msg X m sv = Fatal Atom_count_mismatch (sv\<lparr>sim := setup_atoms X a (sim sv)\<rparr>)"
    using assms by (simp add: setup_msg_def Let_def)
  show "\<not> count_mismatch (setup_atoms X a (sim sv)) (a_natoms a) \<longrightarrow>
        (\<exists>sv'. setup_msg X m sv = Ok sv')"
    using assms by (simp add: setup_msg_def Let_def)
  show "count_mismatch (setup_atoms X a (sim sv)) (a_natoms a) \<longleftrightarrow>
        world (setup_atoms X a (sim sv)) \<noteq> [] \<and>
        (\<Sum>p\<leftarrow>world (setup_atoms X a (sim sv)). of_nat (nlocal p)) \<noteq> a_natoms a"
    by (rule count_mismatch_iff)
  show "\<forall>r<length (world (setup_box X a (sim sv))).
        local_ids (world (setup_atoms X a (sim sv)) ! r) =
          map (\<lambda>i. int i + 1)
            (filter (owns X (setup_box X a (sim sv)) a r) [0..<nat (sint (a_natoms a))])"
    by (simp add: world_setup_atoms rebuild_rank_ids)
  show "world (setup_atoms X a (sim sv)) \<noteq> [] \<and>
      \<not> count_mismatch (setup_atoms X a (sim sv)) (a_natoms a) \<and>
      (\<forall>r<length (world (setup_box X a (sim sv))).
         \<forall>r'<length (world (setup_box X a (sim sv))). r \<noteq> r' \<longrightarrow>
           (\<forall>i<nat (sint (a_natoms a)).
              \<not> (owns X (setup_box X a (sim sv)) a r i \<and>
                 owns X (setup_box X a (sim sv)) a r' i))) \<longrightarrow>
      distinct (concat (map local_ids (world (setup_atoms X a (sim sv))))) \<and>
      set (concat (map local_ids (world (setup_atoms X a (sim sv))))) =
        {1..int (nat (sint (a_natoms a)))}"
    using partition_of_ids [OF setup_validate_nonneg [OF assms], of X "sim sv"] by blast
qed

lemma validate_msg_setup: "setup_validate ext0 sim0 msg_setup = Inr args_setup"
  by (simp add: demo_defs handler_defs args_setup_def)

lemma validate_msg_setup_overlap: "setup_validate ext_overlap sim0 msg_setup = Inr args_setup"
  by (simp add: demo_defs handler_defs args_setup_def)

lemma world_demo:
  "map local_ids (world (setup_atoms ext0 args_setup sim0)) = [[1], [2]]"
  by (simp add: demo_defs handler_defs args_setup_def local_ids_def upt2)

text \<open>
  Claim C2 as stated fails when the ownership tests overlap and leave a gap at once: here
  both processes accept atom 1 and none accepts atom 2, the counts add up to 2 = NATOMS,
  the message is answered, and the local IDs of the group are 1 and 1.
\<close>

theorem overlap_passes_count_check:
  "setup_validate ext_overlap sim0 msg_setup = Inr args_setup \<and>
   \<not> count_mismatch (setup_atoms ext_overlap args_setup sim0) (a_natoms args_setup) \<and>
   map local_ids (world (setup_atoms ext_overlap args_setup sim0)) = [[1], [1]] \<and>
   set (concat (map local_ids (world (setup_atoms ext_overlap args_setup sim0)))) \<noteq>
     {1..int (nat (sint (a_natoms args_setup)))} \<and>
   (\<exists>sv. handle_msg ext_overlap msg_setup (server0 sim0) = Ok sv)"
proof -
  have ids: "map local_ids (world (setup_atoms ext_overlap args_setup sim0)) = [[1], [1]]"
    by (simp add: demo_defs handler_defs args_setup_def local_ids_def upt2)
  have cnt: "\<not> count_mismatch (setup_atoms ext_overlap args_setup sim0) (a_natoms args_setup)"
    by (simp add: demo_defs handler_defs args_setup_def upt2)
  have "(2::int) \<in> {1..int (nat (sint (a_natoms args_setup)))}"
    by (simp add: args_setup_def)
  moreover have "(2::int) \<notin> set (concat (map local_ids (world (setup_atoms ext_overlap args_setup sim0))))"
    by (simp add: ids)
  ultimately have ne: "set (concat (map local_ids (world (setup_atoms ext_overlap args_setup sim0)))) \<noteq>
     {1..int (nat (sint (a_natoms args_setup)))}"
    by blast
  have ok: "\<exists>sv. handle_msg ext_overlap msg_setup (server0 sim0) = Ok sv"
    using cnt validate_msg_setup_overlap
    by (simp add: handle_msg_def setup_msg_def server0_def msg_setup_def SETUP_def Let_def)
  show ?thesis
    using validate_msg_setup_overlap cnt ids ne ok by blast
qed

theorem atom_count_check_witness:
  "setup_validate ext0 (sim (server0 sim0)) msg_setup = Inr args_setup \<and>
   \<not> count_mismatch (setup_atoms ext0 args_setup sim0) (a_natoms args_setup) \<and>
   (\<exists>sv'. setup_msg ext0 msg_setup (server0 sim0) = Ok sv') \<and>
   map local_ids (world (setup_atoms ext0 args_setup sim0)) = [[1], [2]] \<and>
   distinct (concat (map local_ids (world (setup_atoms ext0 args_setup sim0)))) \<and>
   set (concat (map local_ids (world (setup_atoms ext0 args_setup sim0)))) = {1..2}"
proof -
  have s: "sim (server0 sim0) = sim0"
    by (simp add: server0_def)
  have v: "setup_validate ext0 (sim (server0 sim0)) msg_setup = Inr args_setup"
    using validate_msg_setup by (simp add: s)
  have ids: "map local_ids (world (setup_atoms ext0 args_setup sim0)) = [[1], [2]]"
    by (rule world_demo)
  then have ne: "world (setup_atoms ext0 args_setup sim0) \<noteq> []"
    by auto
  have cnt: "\<not> count_mismatch (setup_atoms ext0 args_setup sim0) (a_natoms args_setup)"
    by (simp add: demo_defs handler_defs args_setup_def upt2)
  have apart: "\<forall>r<length (world (setup_box ext0 args_setup sim0)).
         \<forall>r'<length (world (setup_box ext0 args_setup sim0)). r \<noteq> r' \<longrightarrow>
           (\<forall>i<nat (sint (a_natoms args_setup)).
              \<not> (owns ext0 (setup_box ext0 args_setup sim0) args_setup r i \<and>
                 owns ext0 (setup_box ext0 args_setup sim0) args_setup r' i))"
  proof -
    have o: "owns ext0 s' args_setup r i \<longleftrightarrow>
               (if r = 0 then take 3 (drop (3 * i) [1, 1, 1, 6, 6, 6 :: real]) ! 0 < 5
                else 5 \<le> take 3 (drop (3 * i) [1, 1, 1, 6, 6, 6 :: real]) ! 0)" for s' r i
      by (simp add: owns_def ext0_def args_setup_def)
    have len: "length (world (setup_box ext0 args_setup sim0)) = 2"
      by (simp add: setup_box_def ext0_def sim0_def Let_def)
    show ?thesis
      unfolding len by (auto simp: o)
  qed
  have n: "int (nat (sint (a_natoms args_setup))) = 2"
    by (simp add: args_setup_def)
  have part: "distinct (concat (map local_ids (world (setup_atoms ext0 args_setup sim0)))) \<and>
      set (concat (map local_ids (world (setup_atoms ext0 args_setup sim0)))) =
        {1..int (nat (sint (a_natoms args_setup)))}"
    using atom_count_check [OF v] ne cnt apart unfolding s by blast
  have ok: "\<exists>sv'. setup_msg ext0 msg_setup (server0 sim0) = Ok sv'"
    using atom_count_check [OF v] cnt unfolding s by blast
  show ?thesis
    using v ids cnt ok part [unfolded n] by blast
qed

end
